theory Spec2Isabelle
  imports Main "HOL-Library.Word"
begin

section \<open>Bytes and errors\<close>

text \<open>A \<open>Uint8Array\<close> is a list of 8-bit words; offsets and sizes are natural numbers.\<close>

type_synonym byte = "8 word"

text \<open>
  The typed failures of the codecs (the \<open>SolanaError\<close> codes the packages throw):
  the item-count mismatch of the tuple codec carries the codec description, the expected and
  the actual count; the invalid-character failure of the arbitrary-base encoder carries the
  offending character and its position; \<open>DigitOutOfRange\<close> is a digit that has no
  character in the alphabet; \<open>LeafError\<close> stands for any failure of a leaf codec supplied
  by the caller.
\<close>

datatype error =
    InvalidNumberOfItems string nat nat
  | InvalidCharacter char nat
  | DigitOutOfRange nat
  | LeafError string

section \<open>Arbitrary-base string codec\<close>

text \<open>
  Modelled from the spec: \<open>./baseX\<close> (\<open>getBaseXEncoder\<close>, \<open>getBaseXDecoder\<close>) is
  imported by \<open>base58.ts\<close> but is not among the sources. The definitions of this section
  follow section 4.5 and section 7 of the specification.
\<close>

text \<open>
  Modelled from the spec: the alphabet's character-to-digit mapping is missing with
  \<open>./baseX\<close>; a character's digit is its position in the alphabet.
\<close>

fun indexOf :: "string \<Rightarrow> char \<Rightarrow> nat option" where
  "indexOf [] c = None"
| "indexOf (a # as) c = (if a = c then Some 0 else map_option Suc (indexOf as c))"

text \<open>
  Modelled from the spec: the numeral reader of \<open>./baseX\<close> is missing; it is the input
  string read as a base-B numeral, most significant
  character first; the first character outside the alphabet fails with the invalid-character
  condition, which reports the character and its position.
\<close>

fun getBigIntFromBaseX :: "string \<Rightarrow> nat \<Rightarrow> nat \<Rightarrow> string \<Rightarrow> error + nat" where
  "getBigIntFromBaseX alphabet pos acc [] = Inr acc"
| "getBigIntFromBaseX alphabet pos acc (c # cs) =
     (case indexOf alphabet c of
        None \<Rightarrow> Inl (InvalidCharacter c pos)
      | Some d \<Rightarrow> getBigIntFromBaseX alphabet (Suc pos) (acc * length alphabet + d) cs)"

text \<open>
  Modelled from the spec: the byte conversion of \<open>./baseX\<close> is missing; it is repeated
  big-integer division by 256, each remainder put in front,
  which gives the big-endian bytes with no superfluous leading zero byte.
\<close>

function bytesFromBigInt :: "nat \<Rightarrow> byte list \<Rightarrow> byte list" where
  "bytesFromBigInt n acc =
     (if n = 0 then acc else bytesFromBigInt (n div 256) (of_nat (n mod 256) # acc))"
  by pat_completeness auto
termination
  by (relation "measure fst") auto

declare bytesFromBigInt.simps [simp del]

text \<open>
  Modelled from the spec: the count of leading zero digits of \<open>./baseX\<close> is missing; it
  is the number of leading occurrences of the alphabet's zero-digit character.
\<close>

definition leadingZeroDigits :: "string \<Rightarrow> string \<Rightarrow> nat" where
  "leadingZeroDigits alphabet s = length (takeWhile (\<lambda>c. indexOf alphabet c = Some 0) s)"

text \<open>
  Modelled from the spec: \<open>getBaseXEncoder\<close> of \<open>./baseX\<close> is missing; this is the
  encoding of the arbitrary-base codec: the numeral's value as
  big-endian bytes, after one \<open>0x00\<close> byte for every leading zero-digit character.
\<close>

definition getBaseXEncoder :: "string \<Rightarrow> string \<Rightarrow> error + byte list" where
  "getBaseXEncoder alphabet s =
     (case getBigIntFromBaseX alphabet 0 0 s of
        Inl e \<Rightarrow> Inl e
      | Inr n \<Rightarrow> Inr (replicate (leadingZeroDigits alphabet s) 0 @ bytesFromBigInt n []))"

text \<open>
  Modelled from the spec: the digit conversion of \<open>./baseX\<close> is missing; it is
  repeated division by B, each remainder put in front. With a base
  below two the division makes no progress on a non-zero number, so the loop is a partial
  function: \<open>None\<close> is the loop that does not return.
\<close>

partial_function (option) getBaseXFromBigInt :: "nat \<Rightarrow> nat \<Rightarrow> nat list \<Rightarrow> nat list option" where
  "getBaseXFromBigInt B n acc =
     (if n = 0 then Some acc else getBaseXFromBigInt B (n div B) (n mod B # acc))"

text \<open>
  Modelled from the spec: the digit-to-character mapping of \<open>./baseX\<close> is missing; a
  digit's character is the one at that position of the alphabet, and a digit beyond the
  alphabet has none.
\<close>

fun charsOfDigits :: "string \<Rightarrow> nat list \<Rightarrow> error + string" where
  "charsOfDigits alphabet [] = Inr []"
| "charsOfDigits alphabet (d # ds) =
     (if d < length alphabet
      then (case charsOfDigits alphabet ds of Inl e \<Rightarrow> Inl e | Inr cs \<Rightarrow> Inr (alphabet ! d # cs))
      else Inl (DigitOutOfRange d))"

text \<open>
  Modelled from the spec: \<open>getBaseXDecoder\<close> of \<open>./baseX\<close> is missing; this is the
  decoding of the arbitrary-base codec: the leading \<open>0x00\<close>
  bytes are counted, the remaining bytes are read as a big-endian integer, the integer is
  converted to base-B digits, and one zero digit per counted byte is put in front.
\<close>

definition getBaseXDecoder :: "string \<Rightarrow> byte list \<Rightarrow> (error + string) option" where
  "getBaseXDecoder alphabet bytes =
     (let k = length (takeWhile (\<lambda>b. b = 0) bytes);
          n = foldl (\<lambda>sum b. sum * 256 + unat b) 0 (drop k bytes)
      in case getBaseXFromBigInt (length alphabet) n [] of
           None \<Rightarrow> None
         | Some ds \<Rightarrow> Some (charsOfDigits alphabet (replicate k 0 @ ds)))"

subsection \<open>Base 58 (\<open>packages/codecs-strings/src/base58.ts\<close>)\<close>

definition alphabet :: string where
  "alphabet = ''123456789ABCDEFGHJKLMNPQRSTUVWXYZabcdefghijkmnopqrstuvwxyz''"

definition getBase58Encoder :: "string \<Rightarrow> error + byte list" where
  "getBase58Encoder = getBaseXEncoder alphabet"

definition getBase58Decoder :: "byte list \<Rightarrow> (error + string) option" where
  "getBase58Decoder = getBaseXDecoder alphabet"


section \<open>Encoders and decoders\<close>

text \<open>
  Modelled from the spec: the package \<open>@solana/codecs-core\<close> (\<open>createEncoder\<close>,
  \<open>createDecoder\<close>, \<open>getEncodedSize\<close>, \<open>transformEncoder\<close>,
  \<open>transformDecoder\<close>, \<open>combineCodec\<close>) is imported by the sources but is not
  among them. The definitions of this section follow sections 3, 4.2 and 9 of the
  specification.
\<close>

text \<open>
  A value handed to an item codec is a JavaScript value: \<open>undefined\<close>, which is what
  indexing past the end of an array gives and what a void codec is given, or a proper value.
\<close>

datatype 'a js = Undefined | Value 'a

text \<open>\<open>value[index]\<close>: \<open>undefined\<close> when the index is out of range.\<close>

definition elementAt :: "'a js list \<Rightarrow> nat \<Rightarrow> 'a js" where
  "elementAt xs index = (if index < length xs then xs ! index else Undefined)"

text \<open>
  Modelled from the spec: the types \<open>FixedSizeEncoder\<close>, \<open>VariableSizeEncoder\<close>,
  \<open>FixedSizeDecoder\<close> and \<open>VariableSizeDecoder\<close> of \<open>@solana/codecs-core\<close> are
  missing. The size descriptor of an encoder is \<open>fixedSize\<close>, or \<open>getSizeFromValue\<close>
  with an optional \<open>maxSize\<close>; a decoder has no size function. \<open>getSizeFromValue\<close>
  is a function of the caller and may throw on a value it cannot size, as
  \<open>value.length\<close> does on \<open>undefined\<close>.
\<close>

datatype 'v encoderSize =
    FixedSizeEncoder nat
  | VariableSizeEncoder "'v \<Rightarrow> error + nat" "nat option"

datatype decoderSize =
    FixedSizeDecoder nat
  | VariableSizeDecoder "nat option"

text \<open>
  Modelled from the spec: the types \<open>Encoder\<close>, \<open>Decoder\<close> and \<open>Codec\<close> of
  \<open>@solana/codecs-core\<close> are missing. \<open>write(value, bytes, offset)\<close> mutates the
  caller's buffer and returns the new offset, or throws: the model returns the buffer as the
  call leaves it, with the error or the new offset. \<open>read(bytes, offset)\<close> returns the
  value and the new offset, or throws. The field of the encoder is called \<open>write_enc\<close>
  because \<open>write\<close> is a keyword of Isabelle.
\<close>

record 'v encoder =
  encoderSize :: "'v encoderSize"
  write_enc :: "'v \<Rightarrow> byte list \<Rightarrow> nat \<Rightarrow> byte list \<times> (error + nat)"

record 'v decoder =
  decoderSize :: decoderSize
  read :: "byte list \<Rightarrow> nat \<Rightarrow> error + ('v \<times> nat)"

record ('f, 't) codec =
  encoderOf :: "'f encoder"
  decoderOf :: "'t decoder"

text \<open>
  Modelled from the spec: \<open>getEncodedSize\<close> of \<open>@solana/codecs-core\<close> is missing; it
  is the fixed size, or the size computed from the value, which may throw.
\<close>

definition getEncodedSize :: "'v \<Rightarrow> 'v encoder \<Rightarrow> error + nat" where
  "getEncodedSize v e =
     (case encoderSize e of
        FixedSizeEncoder n \<Rightarrow> Inr n
      | VariableSizeEncoder getSizeFromValue maxSize \<Rightarrow> getSizeFromValue v)"

text \<open>
  Modelled from the spec: \<open>createEncoder\<close> and \<open>createDecoder\<close> of
  \<open>@solana/codecs-core\<close> are missing. \<open>encode\<close>, which \<open>createEncoder\<close> adds,
  first computes the encoded size, then writes at offset 0 of a fresh zeroed buffer of that
  size and returns the buffer; \<open>decode\<close>, which \<open>createDecoder\<close> adds, is the value
  read at offset 0.
\<close>

definition encode :: "'v encoder \<Rightarrow> 'v \<Rightarrow> error + byte list" where
  "encode e v =
     (case getEncodedSize v e of
        Inl err \<Rightarrow> Inl err
      | Inr n \<Rightarrow>
          (case write_enc e v (replicate n 0) 0 of
             (bytes, Inl err) \<Rightarrow> Inl err
           | (bytes, Inr offset) \<Rightarrow> Inr bytes))"

text \<open>
  Modelled from the spec: \<open>decode\<close> of \<open>createDecoder\<close> is missing; see above.
\<close>

definition decode :: "'v decoder \<Rightarrow> byte list \<Rightarrow> error + 'v" where
  "decode d bytes =
     (case read d bytes 0 of
        Inl err \<Rightarrow> Inl err
      | Inr (v, offset) \<Rightarrow> Inr v)"

text \<open>
  Modelled from the spec: \<open>transformEncoder\<close> and \<open>transformDecoder\<close> of
  \<open>@solana/codecs-core\<close> are missing; they apply a pure mapping before the write and
  after the read, and leave the sizes and the bytes as they are.
\<close>

definition transformEncoder :: "'v encoder \<Rightarrow> ('w \<Rightarrow> 'v) \<Rightarrow> 'w encoder" where
  "transformEncoder e unmap =
     \<lparr> encoderSize =
         (case encoderSize e of
            FixedSizeEncoder n \<Rightarrow> FixedSizeEncoder n
          | VariableSizeEncoder getSizeFromValue maxSize \<Rightarrow>
              VariableSizeEncoder (\<lambda>v. getSizeFromValue (unmap v)) maxSize),
       write_enc = (\<lambda>v bytes offset. write_enc e (unmap v) bytes offset) \<rparr>"

text \<open>
  Modelled from the spec: \<open>transformDecoder\<close> is missing; see above.
\<close>

definition transformDecoder :: "'v decoder \<Rightarrow> ('v \<Rightarrow> 'w) \<Rightarrow> 'w decoder" where
  "transformDecoder d f =
     \<lparr> decoderSize = decoderSize d,
       read = (\<lambda>bytes offset.
         case read d bytes offset of
           Inl err \<Rightarrow> Inl err
         | Inr (v, newOffset) \<Rightarrow> Inr (f v, newOffset)) \<rparr>"

text \<open>
  Modelled from the spec: \<open>combineCodec\<close> of \<open>@solana/codecs-core\<close> is missing; it
  pairs an encoder with a decoder.
\<close>

definition combineCodec :: "'f encoder \<Rightarrow> 't decoder \<Rightarrow> ('f, 't) codec" where
  "combineCodec e d = \<lparr> encoderOf = e, decoderOf = d \<rparr>"

section \<open>Size algebra and assertions (\<open>./utils\<close>, \<open>./assertions\<close>)\<close>

text \<open>
  Modelled from the spec: \<open>getFixedSize\<close>, \<open>getMaxSize\<close> and \<open>sumCodecSizes\<close> of
  \<open>./utils\<close> are imported by \<open>tuple.ts\<close> but are not among the sources. They follow
  section 4.1: the fixed size of a child, or none; its maximum size, which for a fixed-size
  child is the fixed size, or none; and the sum of the children's sizes, which is none as
  soon as one child has none.
\<close>

definition getFixedSize :: "'v encoder \<Rightarrow> nat option" where
  "getFixedSize e =
     (case encoderSize e of
        FixedSizeEncoder n \<Rightarrow> Some n
      | VariableSizeEncoder getSizeFromValue maxSize \<Rightarrow> None)"

text \<open>
  Modelled from the spec: \<open>getMaxSize\<close> of \<open>./utils\<close> is missing; a fixed size is
  also the maximum size.
\<close>

definition getMaxSize :: "'v encoder \<Rightarrow> nat option" where
  "getMaxSize e =
     (case encoderSize e of
        FixedSizeEncoder n \<Rightarrow> Some n
      | VariableSizeEncoder getSizeFromValue maxSize \<Rightarrow> maxSize)"

text \<open>
  Modelled from the spec: \<open>getFixedSize\<close> and \<open>getMaxSize\<close> of \<open>./utils\<close> are
  missing; these are the same two functions on decoders.
\<close>

definition getFixedSizeDecoder :: "'v decoder \<Rightarrow> nat option" where
  "getFixedSizeDecoder d =
     (case decoderSize d of
        FixedSizeDecoder n \<Rightarrow> Some n
      | VariableSizeDecoder maxSize \<Rightarrow> None)"

text \<open>
  Modelled from the spec: \<open>getMaxSize\<close> of \<open>./utils\<close> is missing; on decoders.
\<close>

definition getMaxSizeDecoder :: "'v decoder \<Rightarrow> nat option" where
  "getMaxSizeDecoder d =
     (case decoderSize d of
        FixedSizeDecoder n \<Rightarrow> Some n
      | VariableSizeDecoder maxSize \<Rightarrow> maxSize)"

text \<open>
  Modelled from the spec: \<open>sumCodecSizes\<close> of \<open>./utils\<close> is missing; one step of
  the sum: none as soon as one of the two sizes is none.
\<close>

definition addCodecSizes :: "nat option \<Rightarrow> nat option \<Rightarrow> nat option" where
  "addCodecSizes all one =
     (case (all, one) of (Some a, Some n) \<Rightarrow> Some (a + n) | _ \<Rightarrow> None)"

text \<open>
  Modelled from the spec: \<open>sumCodecSizes\<close> of \<open>./utils\<close> is missing; the sum of the
  children's sizes, starting from 0.
\<close>

definition sumCodecSizes :: "nat option list \<Rightarrow> nat option" where
  "sumCodecSizes sizes = foldl addCodecSizes (Some 0) sizes"

text \<open>
  Modelled from the spec: \<open>assertValidNumberOfItemsForCodec\<close> of \<open>./assertions\<close> is
  imported by \<open>tuple.ts\<close> but is not among the sources. By sections 4.3 and 7 it fails
  with the item-count mismatch, reporting the expected and the actual count, when the two
  differ.
\<close>

definition assertValidNumberOfItemsForCodec :: "string \<Rightarrow> nat \<Rightarrow> nat \<Rightarrow> error + unit" where
  "assertValidNumberOfItemsForCodec codecDescription expected actual =
     (if expected \<noteq> actual
      then Inl (InvalidNumberOfItems codecDescription expected actual)
      else Inr ())"

section \<open>Tuple codec (\<open>packages/codecs-data-structures/src/tuple.ts\<close>)\<close>

text \<open>
  \<open>items.map((item, index) => getEncodedSize(value[index], item))\<close>, the index counting
  from the given start. The first item whose size function throws ends the map.
\<close>

fun encodedSizes :: "'a js encoder list \<Rightarrow> nat \<Rightarrow> 'a js list \<Rightarrow> error + nat list" where
  "encodedSizes [] index v = Inr []"
| "encodedSizes (item # items) index v =
     (case getEncodedSize (elementAt v index) item of
        Inl err \<Rightarrow> Inl err
      | Inr n \<Rightarrow>
          (case encodedSizes items (Suc index) v of
             Inl err \<Rightarrow> Inl err
           | Inr ns \<Rightarrow> Inr (n # ns)))"

text \<open>
  \<open>items.forEach((item, index) => { offset = item.write(value[index], bytes, offset); })\<close>:
  the loop of \<open>write\<close>. An item that throws ends the loop and leaves the buffer as it is
  at that moment.
\<close>

fun writeItems ::
  "'a js encoder list \<Rightarrow> nat \<Rightarrow> 'a js list \<Rightarrow> byte list \<Rightarrow> nat \<Rightarrow> byte list \<times> (error + nat)" where
  "writeItems [] index v bytes offset = (bytes, Inr offset)"
| "writeItems (item # items) index v bytes offset =
     (case write_enc item (elementAt v index) bytes offset of
        (bytes', Inl err) \<Rightarrow> (bytes', Inl err)
      | (bytes', Inr offset') \<Rightarrow> writeItems items (Suc index) v bytes' offset')"

definition getTupleEncoder :: "'a js encoder list \<Rightarrow> 'a js list encoder" where
  "getTupleEncoder items =
     (let fixedSize = sumCodecSizes (map getFixedSize items);
          maxSize = sumCodecSizes (map getMaxSize items)
      in \<lparr> encoderSize =
             (case fixedSize of
                None \<Rightarrow>
                  VariableSizeEncoder
                    (\<lambda>v. case encodedSizes items 0 v of
                            Inl err \<Rightarrow> Inl err
                          | Inr ns \<Rightarrow> Inr (foldl (\<lambda>all one. all + one) 0 ns))
                    maxSize
              | Some n \<Rightarrow> FixedSizeEncoder n),
           write_enc = (\<lambda>v bytes offset.
             case assertValidNumberOfItemsForCodec ''tuple'' (length items) (length v) of
               Inl err \<Rightarrow> (bytes, Inl err)
             | Inr u \<Rightarrow> writeItems items 0 v bytes offset) \<rparr>)"

text \<open>
  The loop of \<open>read\<close>: each item reads at the current offset, its value is pushed onto
  \<open>values\<close>, and the offset becomes the one the item returned.
\<close>

fun readItems ::
  "'v decoder list \<Rightarrow> byte list \<Rightarrow> nat \<Rightarrow> 'v list \<Rightarrow> error + ('v list \<times> nat)" where
  "readItems [] bytes offset values = Inr (values, offset)"
| "readItems (item # items) bytes offset values =
     (case read item bytes offset of
        Inl err \<Rightarrow> Inl err
      | Inr (newValue, newOffset) \<Rightarrow> readItems items bytes newOffset (values @ [newValue]))"

definition getTupleDecoder :: "'v decoder list \<Rightarrow> 'v list decoder" where
  "getTupleDecoder items =
     (let fixedSize = sumCodecSizes (map getFixedSizeDecoder items);
          maxSize = sumCodecSizes (map getMaxSizeDecoder items)
      in \<lparr> decoderSize =
             (case fixedSize of
                None \<Rightarrow> VariableSizeDecoder maxSize
              | Some n \<Rightarrow> FixedSizeDecoder n),
           read = (\<lambda>bytes offset. readItems items bytes offset []) \<rparr>)"

section \<open>Hidden-prefix codec\<close>

text \<open>
  \<open>getHiddenPrefixEncoder\<close>, \<open>getHiddenPrefixDecoder\<close> and
  \<open>getHiddenPrefixCodec\<close>, from the source file that imports \<open>./tuple\<close>. The encoder
  hands the tuple encoder one \<open>undefined\<close> per prefix and then the value.
\<close>

definition getHiddenPrefixEncoder ::
  "'a js encoder \<Rightarrow> 'a js encoder list \<Rightarrow> 'a js encoder" where
  "getHiddenPrefixEncoder e prefixedEncoders =
     transformEncoder (getTupleEncoder (prefixedEncoders @ [e]))
       (\<lambda>v. map (\<lambda>p. Undefined) prefixedEncoders @ [v])"

text \<open>\<open>tuple[tuple.length - 1]\<close>, which is \<open>undefined\<close> on the empty array.\<close>

definition getHiddenPrefixDecoder ::
  "'a js decoder \<Rightarrow> 'a js decoder list \<Rightarrow> 'a js decoder" where
  "getHiddenPrefixDecoder d prefixedDecoders =
     transformDecoder (getTupleDecoder (prefixedDecoders @ [d]))
       (\<lambda>tuple. if tuple = [] then Undefined else elementAt tuple (length tuple - 1))"

definition getHiddenPrefixCodec ::
  "('a js, 'a js) codec \<Rightarrow> ('a js, 'a js) codec list \<Rightarrow> ('a js, 'a js) codec" where
  "getHiddenPrefixCodec c prefixedCodecs =
     combineCodec (getHiddenPrefixEncoder (encoderOf c) (map encoderOf prefixedCodecs))
       (getHiddenPrefixDecoder (decoderOf c) (map decoderOf prefixedCodecs))"

section \<open>Leaf codecs for the examples\<close>

text \<open>
  The combinators take any leaf codec; these are the inputs of the examples, written after
  the constant-byte prefixes and the string payload of scenario 2 in section 8 of the
  specification. The constant codec writes a fixed byte sequence whatever the value and
  checks it when reading; the bytes codec writes a byte array as it is and reads all the
  remaining bytes; like \<open>value.length\<close>, its size function throws a \<open>TypeError\<close> on
  \<open>undefined\<close>. \<open>setBytes\<close> is \<open>bytes.set(source, offset)\<close>, which throws a
  \<open>RangeError\<close> when the source does not fit.
\<close>

definition setBytes :: "byte list \<Rightarrow> byte list \<Rightarrow> nat \<Rightarrow> byte list option" where
  "setBytes bytes source offset =
     (if offset + length source \<le> length bytes
      then Some (take offset bytes @ source @ drop (offset + length source) bytes)
      else None)"

definition constantEncoder :: "byte list \<Rightarrow> 'a js encoder" where
  "constantEncoder constant =
     \<lparr> encoderSize = FixedSizeEncoder (length constant),
       write_enc = (\<lambda>v bytes offset.
         case setBytes bytes constant offset of
           None \<Rightarrow> (bytes, Inl (LeafError ''RangeError''))
         | Some bytes' \<Rightarrow> (bytes', Inr (offset + length constant))) \<rparr>"

definition constantDecoder :: "byte list \<Rightarrow> 'a js decoder" where
  "constantDecoder constant =
     \<lparr> decoderSize = FixedSizeDecoder (length constant),
       read = (\<lambda>bytes offset.
         if take (length constant) (drop offset bytes) = constant
         then Inr (Undefined, offset + length constant)
         else Inl (LeafError ''InvalidConstant'')) \<rparr>"

definition bytesEncoder :: "byte list js encoder" where
  "bytesEncoder =
     \<lparr> encoderSize =
         VariableSizeEncoder
           (\<lambda>v. case v of
                   Undefined \<Rightarrow> Inl (LeafError ''TypeError'')
                 | Value bs \<Rightarrow> Inr (length bs)) None,
       write_enc = (\<lambda>v bytes offset.
         case v of
           Undefined \<Rightarrow> (bytes, Inl (LeafError ''TypeError''))
         | Value bs \<Rightarrow>
             (case setBytes bytes bs offset of
                None \<Rightarrow> (bytes, Inl (LeafError ''RangeError''))
              | Some bytes' \<Rightarrow> (bytes', Inr (offset + length bs)))) \<rparr>"

definition bytesDecoder :: "byte list js decoder" where
  "bytesDecoder =
     \<lparr> decoderSize = VariableSizeDecoder None,
       read = (\<lambda>bytes offset.
         Inr (Value (drop offset bytes), offset + length (drop offset bytes))) \<rparr>"

text \<open>
  An item of size zero made from the tuple codec itself: the empty tuple, given the empty
  array whatever the value.
\<close>

definition emptyTupleItem :: "'a js encoder" where
  "emptyTupleItem = transformEncoder (getTupleEncoder ([] :: 'a js encoder list)) (\<lambda>v. [])"

section \<open>Offsets of the items\<close>

text \<open>
  The run of a tuple write, told as the buffers and offsets between the items: item \<open>k\<close>
  is written on buffer \<open>k\<close> at offset \<open>k\<close> and returns buffer \<open>k + 1\<close> and offset
  \<open>k + 1\<close>. Likewise for a tuple read, where the buffer does not change.
\<close>

fun writeChain ::
  "'a js encoder list \<Rightarrow> 'a js list \<Rightarrow> byte list list \<Rightarrow> nat list \<Rightarrow> bool" where
  "writeChain [] [] [b] [off] = True"
| "writeChain (item # items) (v # vs) (b # b' # bs) (off # off' # offs) =
     (write_enc item v b off = (b', Inr off') \<and> writeChain items vs (b' # bs) (off' # offs))"
| "writeChain items vs bs offs = False"

fun readChain :: "'v decoder list \<Rightarrow> byte list \<Rightarrow> 'v list \<Rightarrow> nat list \<Rightarrow> bool" where
  "readChain [] bytes [] [off] = True"
| "readChain (item # items) bytes (v # vs) (off # off' # offs) =
     (read item bytes off = Inr (v, off') \<and> readChain items bytes vs (off' # offs))"
| "readChain items bytes vs offs = False"

section \<open>Contracts of the leaf codecs\<close>

text \<open>
  What sections 3 and 4.2 of the specification ask of an encoder and of a decoder, as
  predicates on the arbitrary functions that the combinators accept.

  \<open>writesAs e v bs\<close>: on the value \<open>v\<close> the encoder serializes the bytes \<open>bs\<close>.
  Its encoded size is their number, and a write at any offset of a buffer with room for them
  puts them there, changes nothing else and returns the offset after them.

  \<open>readsFromOffset d\<close>: the decoder reads from the given offset on, so that reading at
  an offset is reading the remaining bytes at offset 0, with the returned offset moved.

  \<open>consumes d p\<close>: wherever the bytes \<open>p\<close> stand in the input, the decoder reads
  them successfully and consumes exactly them.
\<close>

definition writesAs :: "'v encoder \<Rightarrow> 'v \<Rightarrow> byte list \<Rightarrow> bool" where
  "writesAs e v bs \<longleftrightarrow>
     getEncodedSize v e = Inr (length bs) \<and>
     (\<forall>bytes offset. offset + length bs \<le> length bytes \<longrightarrow>
        write_enc e v bytes offset =
          (take offset bytes @ bs @ drop (offset + length bs) bytes, Inr (offset + length bs)))"

definition readsFromOffset :: "'v decoder \<Rightarrow> bool" where
  "readsFromOffset d \<longleftrightarrow>
     (\<forall>bytes offset. read d bytes offset =
        (case read d (drop offset bytes) 0 of
           Inl err \<Rightarrow> Inl err
         | Inr (v, n) \<Rightarrow> Inr (v, offset + n)))"

definition consumes :: "'v decoder \<Rightarrow> byte list \<Rightarrow> bool" where
  "consumes d p \<longleftrightarrow>
     (\<forall>bytes offset. take (length p) (drop offset bytes) = p \<longrightarrow>
        (\<exists>u. read d bytes offset = Inr (u, offset + length p)))"

section \<open>Properties of the arbitrary-base string codec\<close>

subsection \<open>The character-to-digit mapping\<close>

lemma indexOf_None: "indexOf alph c = None \<longleftrightarrow> c \<notin> set alph"
  by (induction alph) auto

lemma indexOf_Some: "indexOf alph c = Some d \<Longrightarrow> d < length alph \<and> alph ! d = c"
  by (induction alph arbitrary: d) (auto split: if_splits)

lemma indexOf_Some_mem: "indexOf alph c = Some d \<Longrightarrow> c \<in> set alph"
  using indexOf_None [of alph c] by auto

subsection \<open>Reading a numeral\<close>

lemma getBigInt_valid:
  "\<forall>c\<in>set s. c \<in> set alph \<Longrightarrow>
   getBigIntFromBaseX alph pos acc s =
     Inr (foldl (\<lambda>a d. a * length alph + d) acc (map (\<lambda>c. the (indexOf alph c)) s))"
proof (induction s arbitrary: pos acc)
  case Nil
  then show ?case by simp
next
  case (Cons c cs)
  then obtain d where "indexOf alph c = Some d"
    using indexOf_None [of alph c] by (cases "indexOf alph c") auto
  with Cons show ?case by simp
qed

lemma getBigInt_Inr_valid:
  "getBigIntFromBaseX alph pos acc s = Inr n \<Longrightarrow> \<forall>c\<in>set s. c \<in> set alph"
proof (induction s arbitrary: pos acc)
  case Nil
  then show ?case by simp
next
  case (Cons c cs)
  then show ?case
    by (cases "indexOf alph c") (auto dest: indexOf_Some_mem)
qed

lemma getBigInt_invalid:
  "getBigIntFromBaseX alph pos acc s = Inl e \<Longrightarrow>
   \<exists>i<length s. e = InvalidCharacter (s ! i) (pos + i) \<and> s ! i \<notin> set alph \<and>
     (\<forall>j<i. s ! j \<in> set alph)"
proof (induction s arbitrary: pos acc)
  case Nil
  then show ?case by simp
next
  case (Cons c cs)
  show ?case
  proof (cases "indexOf alph c")
    case None
    with Cons.prems have "e = InvalidCharacter c pos" by simp
    moreover from None have "c \<notin> set alph" by (simp add: indexOf_None)
    ultimately show ?thesis by (intro exI [of _ 0]) simp
  next
    case (Some d)
    with Cons.prems have "getBigIntFromBaseX alph (Suc pos) (acc * length alph + d) cs = Inl e"
      by simp
    from Cons.IH [OF this] obtain i where i: "i < length cs"
      "e = InvalidCharacter (cs ! i) (Suc pos + i)" "cs ! i \<notin> set alph"
      "\<forall>j<i. cs ! j \<in> set alph" by blast
    from Some have "c \<in> set alph" by (rule indexOf_Some_mem)
    with i have "\<forall>j<Suc i. (c # cs) ! j \<in> set alph"
      by (auto simp: nth_Cons split: nat.splits)
    with i show ?thesis by (intro exI [of _ "Suc i"]) simp
  qed
qed

subsection \<open>The base-58 example\<close>

lemma length_alphabet: "length alphabet = 58"
  by (simp add: alphabet_def)

lemma indexOf_alphabet_heLo:
  "indexOf alphabet CHR ''h'' = Some 40" "indexOf alphabet CHR ''e'' = Some 37"
  "indexOf alphabet CHR ''L'' = Some 19" "indexOf alphabet CHR ''o'' = Some 46"
  by (simp_all add: alphabet_def)

text \<open>
  Claim C7. The base-58 codec, the arbitrary-base codec over the 58-character alphabet
  \<open>123456789ABCDEFGHJKLMNPQRSTUVWXYZabcdefghijkmnopqrstuvwxyz\<close>, encodes the string
  \<open>heLLo\<close> to exactly the four bytes \<open>0x1b 0x6a 0x30 0x70\<close>, and decodes those four
  bytes back to \<open>heLLo\<close>.
\<close>

theorem C7_base58_heLLo:
  "getBase58Encoder ''heLLo'' = Inr [0x1b, 0x6a, 0x30, 0x70] \<and>
   getBase58Decoder [0x1b, 0x6a, 0x30, 0x70] = Some (Inr ''heLLo'')"
proof
  show "getBase58Encoder ''heLLo'' = Inr [0x1b, 0x6a, 0x30, 0x70]"
    by (simp add: getBase58Encoder_def getBaseXEncoder_def length_alphabet
        indexOf_alphabet_heLo leadingZeroDigits_def bytesFromBigInt.simps)
  show "getBase58Decoder [0x1b, 0x6a, 0x30, 0x70] = Some (Inr ''heLLo'')"
    by (simp add: getBase58Decoder_def getBaseXDecoder_def alphabet_def
        getBaseXFromBigInt.simps)
qed

subsection \<open>Invalid characters\<close>

text \<open>
  Claim C8. For every alphabet and every input string, arbitrary-base encoding fails with
  the invalid-character condition if and only if the string contains a character outside
  the alphabet; whenever the encoding fails, the failure is that condition and it reports
  the first offending character together with its position in the string.
\<close>

theorem C8_invalid_character:
  "((\<exists>c i. getBaseXEncoder alph s = Inl (InvalidCharacter c i)) \<longleftrightarrow>
      (\<exists>c\<in>set s. c \<notin> set alph)) \<and>
   (\<forall>e. getBaseXEncoder alph s = Inl e \<longrightarrow>
      (\<exists>i<length s. e = InvalidCharacter (s ! i) i \<and> s ! i \<notin> set alph \<and>
         (\<forall>j<i. s ! j \<in> set alph)))"
proof -
  have fail: "\<exists>i<length s. e = InvalidCharacter (s ! i) i \<and> s ! i \<notin> set alph \<and>
         (\<forall>j<i. s ! j \<in> set alph)" if "getBaseXEncoder alph s = Inl e" for e
  proof -
    from that have "getBigIntFromBaseX alph 0 0 s = Inl e"
      by (simp add: getBaseXEncoder_def split: sum.splits)
    from getBigInt_invalid [OF this] show ?thesis by simp
  qed
  have "(\<exists>c i. getBaseXEncoder alph s = Inl (InvalidCharacter c i)) \<longleftrightarrow>
      (\<exists>c\<in>set s. c \<notin> set alph)"
  proof
    assume "\<exists>c i. getBaseXEncoder alph s = Inl (InvalidCharacter c i)"
    then obtain c i where "getBaseXEncoder alph s = Inl (InvalidCharacter c i)" by blast
    from fail [OF this] show "\<exists>c\<in>set s. c \<notin> set alph" by (metis nth_mem)
  next
    assume bad: "\<exists>c\<in>set s. c \<notin> set alph"
    have "\<exists>e. getBaseXEncoder alph s = Inl e"
    proof (cases "getBaseXEncoder alph s")
      case (Inl e)
      then show ?thesis by blast
    next
      case (Inr bs)
      then have "\<exists>n. getBigIntFromBaseX alph 0 0 s = Inr n"
        by (auto simp: getBaseXEncoder_def split: sum.splits)
      then have "\<forall>c\<in>set s. c \<in> set alph" using getBigInt_Inr_valid by blast
      with bad show ?thesis by blast
    qed
    then obtain e where e: "getBaseXEncoder alph s = Inl e" by blast
    from fail [OF e] e show "\<exists>c i. getBaseXEncoder alph s = Inl (InvalidCharacter c i)"
      by blast
  qed
  with fail show ?thesis by blast
qed

theorem C8_invalid_character_witness:
  "(\<exists>c i. getBaseXEncoder ''01'' ''0120'' = Inl (InvalidCharacter c i)) \<and>
   getBaseXEncoder ''01'' ''0120'' = Inl (InvalidCharacter CHR ''2'' 2)"
proof -
  have "\<exists>c\<in>set ''0120''. c \<notin> set ''01''" by simp
  with C8_invalid_character [of "''01''" "''0120''"]
  have "\<exists>c i. getBaseXEncoder ''01'' ''0120'' = Inl (InvalidCharacter c i)" by blast
  moreover have "getBaseXEncoder ''01'' ''0120'' = Inl (InvalidCharacter CHR ''2'' 2)"
    by (simp add: getBaseXEncoder_def)
  ultimately show ?thesis by blast
qed

subsection \<open>Bytes of a number and back\<close>

lemma bytesFromBigInt_acc: "bytesFromBigInt n acc = bytesFromBigInt n [] @ acc"
proof (induction n arbitrary: acc rule: less_induct)
  case (less n)
  show ?case
  proof (cases "n = 0")
    case True
    then show ?thesis by (simp add: bytesFromBigInt.simps)
  next
    case False
    then have lt: "n div 256 < n" by simp
    have "bytesFromBigInt n acc = bytesFromBigInt (n div 256) (of_nat (n mod 256) # acc)"
      using False by (subst bytesFromBigInt.simps) simp
    also have "\<dots> = bytesFromBigInt (n div 256) [] @ of_nat (n mod 256) # acc"
      by (rule less [OF lt])
    finally have l: "bytesFromBigInt n acc =
      bytesFromBigInt (n div 256) [] @ of_nat (n mod 256) # acc" .
    have "bytesFromBigInt n [] = bytesFromBigInt (n div 256) [of_nat (n mod 256)]"
      using False by (subst bytesFromBigInt.simps) simp
    also have "\<dots> = bytesFromBigInt (n div 256) [] @ [of_nat (n mod 256)]"
      by (rule less [OF lt])
    finally show ?thesis using l by simp
  qed
qed

lemma bytesFromBigInt_step:
  "0 < n \<Longrightarrow> bytesFromBigInt n [] = bytesFromBigInt (n div 256) [] @ [of_nat (n mod 256)]"
  by (subst bytesFromBigInt.simps, subst bytesFromBigInt_acc) simp

lemma unat_byte_of_mod: "unat (of_nat (n mod 256) :: byte) = n mod 256"
  by (simp add: unat_of_nat)

lemma bigInt_of_bytes: "foldl (\<lambda>sum b. sum * 256 + unat b) 0 (bytesFromBigInt n []) = n"
proof (induction n rule: less_induct)
  case (less n)
  show ?case
  proof (cases "n = 0")
    case True
    then show ?thesis by (simp add: bytesFromBigInt.simps)
  next
    case False
    then have "n div 256 < n" by simp
    from less [OF this] False show ?thesis
      by (simp add: bytesFromBigInt_step unat_byte_of_mod)
  qed
qed

lemma bytesFromBigInt_hd:
  "0 < n \<Longrightarrow> bytesFromBigInt n [] \<noteq> [] \<and> hd (bytesFromBigInt n []) \<noteq> 0"
proof (induction n rule: less_induct)
  case (less n)
  show ?case
  proof (cases "n div 256 = 0")
    case True
    then have "n < 256" using less.prems by (simp add: div_eq_0_iff)
    have "bytesFromBigInt n [] = [of_nat n]"
      using less.prems True \<open>n < 256\<close> by (simp add: bytesFromBigInt_step bytesFromBigInt.simps)
    moreover have "(of_nat n :: byte) \<noteq> 0"
    proof
      assume "(of_nat n :: byte) = 0"
      then have "unat (of_nat n :: byte) = 0" by simp
      with \<open>n < 256\<close> less.prems show False by (simp add: unat_of_nat)
    qed
    ultimately show ?thesis by simp
  next
    case False
    then have "0 < n div 256" "n div 256 < n" using less.prems by simp_all
    from less.IH [OF this(2) this(1)] less.prems show ?thesis
      by (simp add: bytesFromBigInt_step)
  qed
qed


lemma digits_value_pos:
  "0 < (B::nat) \<Longrightarrow> ds \<noteq> [] \<Longrightarrow> hd ds \<noteq> 0 \<Longrightarrow> 0 < foldl (\<lambda>a d. a * B + d) 0 ds"
proof (induction ds rule: rev_induct)
  case Nil
  then show ?case by simp
next
  case (snoc x xs)
  show ?case
  proof (cases "xs = []")
    case True
    with snoc.prems show ?thesis by simp
  next
    case False
    with snoc have "0 < foldl (\<lambda>a d. a * B + d) 0 xs" by simp
    with snoc.prems(1) show ?thesis by simp
  qed
qed

lemma getBaseXFromBigInt_digits:
  "2 \<le> B \<Longrightarrow> \<forall>d\<in>set ds. d < B \<Longrightarrow> ds = [] \<or> hd ds \<noteq> 0 \<Longrightarrow>
   getBaseXFromBigInt B (foldl (\<lambda>a d. a * B + d) 0 ds) acc = Some (ds @ acc)"
proof (induction ds arbitrary: acc rule: rev_induct)
  case Nil
  then show ?case by (simp add: getBaseXFromBigInt.simps)
next
  case (snoc x xs)
  let ?v = "foldl (\<lambda>a d. a * B + d) 0 xs"
  have x: "x < B" using snoc.prems(2) by simp
  have hd: "hd (xs @ [x]) \<noteq> 0" using snoc.prems(3) by simp
  have pos: "0 < ?v * B + x"
    using digits_value_pos [of B "xs @ [x]"] snoc.prems(1) hd by simp
  have xs: "xs = [] \<or> hd xs \<noteq> 0" using hd by (cases xs) auto
  have "getBaseXFromBigInt B (?v * B + x) acc =
        getBaseXFromBigInt B ((?v * B + x) div B) ((?v * B + x) mod B # acc)"
  proof -
    from pos have "?v * B + x \<noteq> 0" by simp
    then show ?thesis by (subst getBaseXFromBigInt.simps) (simp only: if_False)
  qed
  also have "(?v * B + x) div B = ?v" using x by simp
  also have "(?v * B + x) mod B = x" using x by simp
  also have "getBaseXFromBigInt B ?v (x # acc) = Some (xs @ x # acc)"
    using snoc.IH [OF snoc.prems(1) _ xs] snoc.prems(2) by simp
  finally show ?case by simp
qed

lemma foldl_zero_digits: "foldl (\<lambda>a d. a * B + d) 0 (replicate k 0) = (0::nat)"
  by (induction k) simp_all

lemma zero_digits_takeWhile:
  "map (\<lambda>c. the (indexOf alph c)) (takeWhile (\<lambda>c. indexOf alph c = Some 0) s) =
   replicate (leadingZeroDigits alph s) 0"
  unfolding leadingZeroDigits_def by (induction s) simp_all

lemma charsOfDigits_valid:
  "\<forall>c\<in>set s. c \<in> set alph \<Longrightarrow> charsOfDigits alph (map (\<lambda>c. the (indexOf alph c)) s) = Inr s"
proof (induction s)
  case Nil
  then show ?case by simp
next
  case (Cons c cs)
  then obtain d where d: "indexOf alph c = Some d"
    using indexOf_None [of alph c] by (cases "indexOf alph c") auto
  from indexOf_Some [OF d] d Cons show ?case by simp
qed

lemma takeWhile_zero_bytes:
  "bs \<noteq> [] \<and> hd bs \<noteq> 0 \<Longrightarrow> takeWhile (\<lambda>b. b = (0::byte)) (replicate k 0 @ bs) = replicate k 0"
  by (induction k) (auto simp: neq_Nil_conv)

lemma baseX_roundtrip:
  assumes val: "getBigIntFromBaseX alph 0 0 s = Inr n" and nz: "n \<noteq> 0"
  shows "getBaseXEncoder alph s =
           Inr (replicate (leadingZeroDigits alph s) 0 @ bytesFromBigInt n [])"
    and "getBaseXDecoder alph (replicate (leadingZeroDigits alph s) 0 @ bytesFromBigInt n []) =
           Some (Inr s)"
proof -
  let ?dg = "\<lambda>c. the (indexOf alph c)"
  let ?isz = "\<lambda>c. indexOf alph c = Some 0"
  let ?f = "\<lambda>a d. a * length alph + d"
  let ?k = "leadingZeroDigits alph s"
  let ?t = "dropWhile ?isz s"
  show "getBaseXEncoder alph s = Inr (replicate ?k 0 @ bytesFromBigInt n [])"
    using val by (simp add: getBaseXEncoder_def)
  have valid: "\<forall>c\<in>set s. c \<in> set alph" using val by (rule getBigInt_Inr_valid)
  have split: "map ?dg s = replicate ?k 0 @ map ?dg ?t"
    using zero_digits_takeWhile [of alph s] takeWhile_dropWhile_id [of ?isz s]
    by (metis map_append)
  have n: "n = foldl ?f 0 (map ?dg ?t)"
    using val getBigInt_valid [OF valid, of 0 0] split by (simp add: foldl_zero_digits)
  have t: "?t \<noteq> []"
  proof
    assume "?t = []"
    then have "foldl ?f 0 (map ?dg ?t) = 0" by (simp only: list.map foldl_Nil)
    with n nz show False by simp
  qed
  then have "\<not> ?isz (hd ?t)" by (rule hd_dropWhile)
  moreover have "hd ?t \<in> set alph" using t valid by (metis hd_in_set set_dropWhileD)
  ultimately obtain d where d: "indexOf alph (hd ?t) = Some d" "d \<noteq> 0"
    using indexOf_None [of alph "hd ?t"] by (cases "indexOf alph (hd ?t)") auto
  from indexOf_Some [OF d(1)] d(2) have B: "2 \<le> length alph" by simp
  have hd: "hd (map ?dg ?t) \<noteq> 0" using t d by (simp add: hd_map)
  have lt: "\<forall>x\<in>set (map ?dg ?t). x < length alph"
  proof
    fix x assume "x \<in> set (map ?dg ?t)"
    then obtain c where c: "c \<in> set ?t" "x = ?dg c" by auto
    then have "c \<in> set alph" using valid by (metis set_dropWhileD)
    then obtain e where "indexOf alph c = Some e"
      using indexOf_None [of alph c] by (cases "indexOf alph c") auto
    with indexOf_Some [OF this] c show "x < length alph" by simp
  qed
  have digits: "getBaseXFromBigInt (length alph) n [] = Some (map ?dg ?t)"
    using getBaseXFromBigInt_digits [OF B lt, of "[]"] hd n by simp
  have bs: "bytesFromBigInt n [] \<noteq> [] \<and> hd (bytesFromBigInt n []) \<noteq> 0"
    using bytesFromBigInt_hd [of n] nz by simp
  have tw: "takeWhile (\<lambda>b. b = 0) (replicate ?k 0 @ bytesFromBigInt n []) = replicate ?k 0"
    by (rule takeWhile_zero_bytes [OF bs])
  show "getBaseXDecoder alph (replicate ?k 0 @ bytesFromBigInt n []) = Some (Inr s)"
    using digits charsOfDigits_valid [OF valid] split
    by (simp add: getBaseXDecoder_def tw bigInt_of_bytes)
qed


lemma leadingZeroDigits_replicate:
  "indexOf alph z = Some 0 \<Longrightarrow>
   leadingZeroDigits alph (replicate N z @ t) = N + leadingZeroDigits alph t"
  unfolding leadingZeroDigits_def by (induction N) simp_all

lemma getBigInt_zero_prefix:
  assumes z: "indexOf alph z = Some 0" and val: "getBigIntFromBaseX alph 0 0 t = Inr n"
  shows "getBigIntFromBaseX alph 0 0 (replicate N z @ t) = Inr n"
proof -
  have t: "\<forall>c\<in>set t. c \<in> set alph" using val by (rule getBigInt_Inr_valid)
  have "z \<in> set alph" using z by (rule indexOf_Some_mem)
  with t have valid: "\<forall>c\<in>set (replicate N z @ t). c \<in> set alph" by auto
  have dz: "the (indexOf alph z) = 0" using z by simp
  show ?thesis
    using getBigInt_valid [OF valid, of 0 0] getBigInt_valid [OF t, of 0 0] val
    by (simp add: dz foldl_zero_digits)
qed

text \<open>
  Claim C1. For every alphabet, every natural number \<open>N\<close> and every input string made of
  \<open>N\<close> zero-digit characters followed by a suffix that denotes a non-zero value, encoding
  succeeds, the bytes begin with \<open>N\<close> zero bytes, and decoding those bytes returns the
  input string itself: the \<open>N\<close> leading zero-digit characters are reproduced, followed by
  the unchanged suffix, so that the leading zero-digit run of the result is the \<open>N\<close>
  characters and whatever zero digits the suffix itself begins with.
\<close>

theorem C1_leading_zeroes:
  assumes z: "indexOf alph z = Some 0"
    and val: "getBigIntFromBaseX alph 0 0 t = Inr n" and nz: "n \<noteq> 0"
  shows "\<exists>bytes. getBaseXEncoder alph (replicate N z @ t) = Inr bytes \<and>
           take N bytes = replicate N 0 \<and>
           getBaseXDecoder alph bytes = Some (Inr (replicate N z @ t)) \<and>
           leadingZeroDigits alph (replicate N z @ t) = N + leadingZeroDigits alph t"
proof -
  let ?s = "replicate N z @ t"
  let ?bytes = "replicate (leadingZeroDigits alph ?s) 0 @ bytesFromBigInt n []"
  have v: "getBigIntFromBaseX alph 0 0 ?s = Inr n"
    using z val by (rule getBigInt_zero_prefix)
  have k: "leadingZeroDigits alph ?s = N + leadingZeroDigits alph t"
    using z by (rule leadingZeroDigits_replicate)
  have "take N ?bytes = replicate N 0"
    by (simp add: k replicate_add)
  with baseX_roundtrip [OF v nz] k show ?thesis by blast
qed

lemma getBigInt_heLLo: "getBigIntFromBaseX alphabet 0 0 ''heLLo'' = Inr 459944048"
  by (simp add: length_alphabet indexOf_alphabet_heLo)

lemma indexOf_alphabet_1: "indexOf alphabet CHR ''1'' = Some 0"
  by (simp add: alphabet_def)

theorem C1_leading_zeroes_witness:
  "\<exists>bytes. getBaseXEncoder alphabet ''11heLLo'' = Inr bytes \<and>
     take 2 bytes = [0, 0] \<and>
     getBaseXDecoder alphabet bytes = Some (Inr ''11heLLo'')"
proof -
  have nz: "(459944048::nat) \<noteq> 0" by simp
  from C1_leading_zeroes [OF indexOf_alphabet_1 getBigInt_heLLo nz, of 2]
  show ?thesis by (auto simp: numeral_2_eq_2)
qed

section \<open>Properties of the tuple and hidden-prefix codecs\<close>

lemmas sample_defs =
  getTupleEncoder_def getTupleDecoder_def Let_def sumCodecSizes_def addCodecSizes_def
  getFixedSize_def getMaxSize_def getFixedSizeDecoder_def getMaxSizeDecoder_def
  constantEncoder_def constantDecoder_def bytesEncoder_def bytesDecoder_def
  setBytes_def assertValidNumberOfItemsForCodec_def elementAt_def getEncodedSize_def
  encode_def decode_def transformEncoder_def transformDecoder_def
  getHiddenPrefixEncoder_def getHiddenPrefixDecoder_def emptyTupleItem_def

subsection \<open>Item count\<close>

lemma encodedSizes_error:
  "encodedSizes items index v = Inl err \<Longrightarrow>
   \<exists>item\<in>set items. \<exists>u. getEncodedSize u item = Inl err"
proof (induction items arbitrary: index)
  case Nil
  then show ?case by simp
next
  case (Cons item items)
  then show ?case by (fastforce split: sum.splits)
qed

lemma getEncodedSize_tuple_error:
  "getEncodedSize v (getTupleEncoder items) = Inl err \<Longrightarrow>
   \<exists>item\<in>set items. \<exists>u. getEncodedSize u item = Inl err"
proof -
  assume "getEncodedSize v (getTupleEncoder items) = Inl err"
  then have "encodedSizes items 0 v = Inl err"
    by (auto simp: getEncodedSize_def getTupleEncoder_def Let_def split: option.splits sum.splits)
  then show ?thesis by (rule encodedSizes_error)
qed

lemma fixed_tuple_size:
  "getFixedSize (getTupleEncoder items) = Some n \<Longrightarrow>
   getEncodedSize v (getTupleEncoder items) = Inr n"
  by (simp add: getFixedSize_def getEncodedSize_def split: encoderSize.splits)

text \<open>
  Claim C4, as amended. For every list of item encoders and every input value whose element
  count differs from the number of item encoders, \<open>write\<close> of the tuple encoder fails
  with the item-count mismatch, which reports the expected and the actual count, and the
  failure comes before any byte is written: the buffer is returned as it was. This holds
  whatever the items are. \<open>encode\<close> fails with the same condition whenever the encoded
  size can be computed, which is always so for a tuple of fixed size. When the tuple is of
  variable size and the size function of an item throws on its element, which is
  \<open>undefined\<close> past the end of the value, \<open>encode\<close> fails with that failure of the
  item instead: the sizes are computed before the assertion is reached.
\<close>

theorem C4_tuple_item_count:
  "length v \<noteq> length items \<Longrightarrow>
   write_enc (getTupleEncoder items) v bytes offset =
     (bytes, Inl (InvalidNumberOfItems ''tuple'' (length items) (length v))) \<and>
   (\<forall>n. getEncodedSize v (getTupleEncoder items) = Inr n \<longrightarrow>
      encode (getTupleEncoder items) v =
        Inl (InvalidNumberOfItems ''tuple'' (length items) (length v))) \<and>
   (\<forall>n. getFixedSize (getTupleEncoder items) = Some n \<longrightarrow>
      encode (getTupleEncoder items) v =
        Inl (InvalidNumberOfItems ''tuple'' (length items) (length v))) \<and>
   (\<forall>err. getEncodedSize v (getTupleEncoder items) = Inl err \<longrightarrow>
      encode (getTupleEncoder items) v = Inl err \<and>
      (\<exists>item\<in>set items. \<exists>u. getEncodedSize u item = Inl err))"
proof -
  assume ne: "length v \<noteq> length items"
  have w: "write_enc (getTupleEncoder items) v bs off =
     (bs, Inl (InvalidNumberOfItems ''tuple'' (length items) (length v)))" for bs off
    using ne by (simp add: getTupleEncoder_def assertValidNumberOfItemsForCodec_def Let_def)
  have sized: "encode (getTupleEncoder items) v =
        Inl (InvalidNumberOfItems ''tuple'' (length items) (length v))"
    if "getEncodedSize v (getTupleEncoder items) = Inr n" for n
    using that by (simp add: encode_def w)
  have fixed: "encode (getTupleEncoder items) v =
        Inl (InvalidNumberOfItems ''tuple'' (length items) (length v))"
    if "getFixedSize (getTupleEncoder items) = Some n" for n
    using sized [OF fixed_tuple_size [OF that]] .
  have thrown: "encode (getTupleEncoder items) v = Inl err \<and>
      (\<exists>item\<in>set items. \<exists>u. getEncodedSize u item = Inl err)"
    if "getEncodedSize v (getTupleEncoder items) = Inl err" for err
    using that getEncodedSize_tuple_error [OF that] by (simp add: encode_def)
  from w [of bytes offset] sized fixed thrown show ?thesis by blast
qed

text \<open>
  Encoding does not always fail with the item-count mismatch: with a constant and a byte
  array as items and a value of one element, the tuple is of variable size, the size of the
  missing second element is asked of the byte-array encoder, and its \<open>TypeError\<close> is what
  \<open>encode\<close> fails with.
\<close>

theorem C4_tuple_item_count_counterexample:
  "length [Value [7 :: byte]] \<noteq> length [constantEncoder [1, 2, 3], bytesEncoder] \<and>
   encode (getTupleEncoder [constantEncoder [1, 2, 3], bytesEncoder]) [Value [7]] =
     Inl (LeafError ''TypeError'')"
  by (simp add: sample_defs)

theorem C4_tuple_item_count_witness:
  "write_enc (getTupleEncoder [constantEncoder [1, 2, 3], bytesEncoder])
     [Value [7]] [9, 9, 9, 9] 0 =
     ([9, 9, 9, 9], Inl (InvalidNumberOfItems ''tuple'' 2 1)) \<and>
   encode (getTupleEncoder [constantEncoder [1, 2, 3], constantEncoder [4, 5, 6]])
     [Undefined :: byte list js] = Inl (InvalidNumberOfItems ''tuple'' 2 1) \<and>
   encode (getTupleEncoder [constantEncoder [1, 2, 3], bytesEncoder]) [Value [7]] =
     Inl (LeafError ''TypeError'')"
proof -
  let ?open = "[constantEncoder [1, 2, 3], bytesEncoder]"
  let ?fixed = "[constantEncoder [1, 2, 3], constantEncoder [4, 5, 6]] :: byte list js encoder list"
  have ne: "length [Value [7 :: byte]] \<noteq> length ?open"
    "length [Undefined :: byte list js] \<noteq> length ?fixed"
    by simp_all
  have f: "getFixedSize (getTupleEncoder ?fixed) = Some 6"
    by (simp add: sample_defs)
  have t: "getEncodedSize [Value [7]] (getTupleEncoder ?open) = Inl (LeafError ''TypeError'')"
    by (simp add: sample_defs)
  from C4_tuple_item_count [OF ne(1), of "[9, 9, 9, 9]" 0] t
    C4_tuple_item_count [OF ne(2), of "[]" 0] f
  show ?thesis by simp
qed

subsection \<open>Size algebra\<close>

lemma addCodecSizes_simps [simp]:
  "addCodecSizes None x = None" "addCodecSizes y None = None"
  "addCodecSizes (Some a) (Some n) = Some (a + n)"
  by (simp_all add: addCodecSizes_def split: option.splits)

lemma sum_sizes_None: "foldl addCodecSizes None xs = None"
  by (induction xs) simp_all

lemma sum_sizes_Some: "foldl addCodecSizes (Some a) (map Some ns) = Some (a + sum_list ns)"
  by (induction ns arbitrary: a) (simp_all add: add.assoc)

lemma sum_sizes_has_None: "None \<in> set xs \<Longrightarrow> foldl addCodecSizes acc xs = None"
proof (induction xs arbitrary: acc)
  case Nil
  then show ?case by simp
next
  case (Cons x xs)
  show ?case
  proof (cases x)
    case None
    then show ?thesis by (simp add: sum_sizes_None)
  next
    case (Some n)
    with Cons.prems have "None \<in> set xs" by simp
    from Cons.IH [OF this] show ?thesis by simp
  qed
qed

lemma sumCodecSizes_Some: "sumCodecSizes (map Some ns) = Some (sum_list ns)"
  by (simp add: sumCodecSizes_def sum_sizes_Some)

lemma sumCodecSizes_None: "None \<in> set xs \<Longrightarrow> sumCodecSizes xs = None"
  by (simp add: sumCodecSizes_def sum_sizes_has_None)

lemma no_None_map_Some: "None \<notin> set xs \<Longrightarrow> xs = map Some (map the xs)"
  by (induction xs) auto

lemma sumCodecSizes_eq_Some:
  "sumCodecSizes xs = Some n \<Longrightarrow> None \<notin> set xs"
  using sumCodecSizes_None by fastforce

lemma getFixedSize_getMaxSize: "getFixedSize e \<noteq> None \<Longrightarrow> getMaxSize e = getFixedSize e"
  by (simp add: getFixedSize_def getMaxSize_def split: encoderSize.splits)

lemma getFixedSizeDecoder_getMaxSizeDecoder:
  "getFixedSizeDecoder d \<noteq> None \<Longrightarrow> getMaxSizeDecoder d = getFixedSizeDecoder d"
  by (simp add: getFixedSizeDecoder_def getMaxSizeDecoder_def split: decoderSize.splits)

lemma getFixedSize_tuple:
  "getFixedSize (getTupleEncoder items) = sumCodecSizes (map getFixedSize items)"
  by (simp add: getTupleEncoder_def getFixedSize_def Let_def split: option.splits)

lemma getFixedSizeDecoder_tuple:
  "getFixedSizeDecoder (getTupleDecoder items) = sumCodecSizes (map getFixedSizeDecoder items)"
  by (simp add: getTupleDecoder_def getFixedSizeDecoder_def Let_def split: option.splits)

lemma getMaxSize_tuple:
  "getMaxSize (getTupleEncoder items) = sumCodecSizes (map getMaxSize items)"
proof (cases "sumCodecSizes (map getFixedSize items)")
  case None
  then show ?thesis by (simp add: getTupleEncoder_def getMaxSize_def Let_def)
next
  case (Some n)
  then have "None \<notin> set (map getFixedSize items)" by (rule sumCodecSizes_eq_Some)
  then have "map getMaxSize items = map getFixedSize items"
    by (intro map_cong refl getFixedSize_getMaxSize) force
  moreover have "getMaxSize (getTupleEncoder items) = Some n"
    using Some by (simp add: getTupleEncoder_def getMaxSize_def Let_def)
  ultimately show ?thesis using Some by (simp only:)
qed

lemma getMaxSizeDecoder_tuple:
  "getMaxSizeDecoder (getTupleDecoder items) = sumCodecSizes (map getMaxSizeDecoder items)"
proof (cases "sumCodecSizes (map getFixedSizeDecoder items)")
  case None
  then show ?thesis by (simp add: getTupleDecoder_def getMaxSizeDecoder_def Let_def)
next
  case (Some n)
  then have "None \<notin> set (map getFixedSizeDecoder items)" by (rule sumCodecSizes_eq_Some)
  then have "map getMaxSizeDecoder items = map getFixedSizeDecoder items"
    by (intro map_cong refl getFixedSizeDecoder_getMaxSizeDecoder) force
  moreover have "getMaxSizeDecoder (getTupleDecoder items) = Some n"
    using Some by (simp add: getTupleDecoder_def getMaxSizeDecoder_def Let_def)
  ultimately show ?thesis using Some by (simp only:)
qed

lemma unbounded_not_fixed: "getMaxSize e = None \<Longrightarrow> getFixedSize e = None"
  by (simp add: getFixedSize_def getMaxSize_def split: encoderSize.splits)

lemma unbounded_not_fixed_decoder: "getMaxSizeDecoder d = None \<Longrightarrow> getFixedSizeDecoder d = None"
  by (simp add: getFixedSizeDecoder_def getMaxSizeDecoder_def split: decoderSize.splits)

text \<open>
  Claim C5. The size descriptor of the tuple encoder and of the tuple decoder: when every
  item has a fixed size, the tuple has the fixed size that is the sum of the items' fixed
  sizes; when every item has a maximum size, the tuple's maximum size is the sum of the
  items' maximum sizes; when some item is not fixed, the tuple has no fixed size; when some
  item is unbounded, the tuple has no fixed size and no maximum size.
\<close>

theorem C5_tuple_sizes:
  "(map getFixedSize items = map Some ns \<longrightarrow>
      getFixedSize (getTupleEncoder items) = Some (sum_list ns)) \<and>
   (map getMaxSize items = map Some ms \<longrightarrow>
      getMaxSize (getTupleEncoder items) = Some (sum_list ms)) \<and>
   (None \<in> set (map getFixedSize items) \<longrightarrow> getFixedSize (getTupleEncoder items) = None) \<and>
   (None \<in> set (map getMaxSize items) \<longrightarrow>
      getFixedSize (getTupleEncoder items) = None \<and> getMaxSize (getTupleEncoder items) = None) \<and>
   (map getFixedSizeDecoder ditems = map Some ns' \<longrightarrow>
      getFixedSizeDecoder (getTupleDecoder ditems) = Some (sum_list ns')) \<and>
   (map getMaxSizeDecoder ditems = map Some ms' \<longrightarrow>
      getMaxSizeDecoder (getTupleDecoder ditems) = Some (sum_list ms')) \<and>
   (None \<in> set (map getFixedSizeDecoder ditems) \<longrightarrow>
      getFixedSizeDecoder (getTupleDecoder ditems) = None) \<and>
   (None \<in> set (map getMaxSizeDecoder ditems) \<longrightarrow>
      getFixedSizeDecoder (getTupleDecoder ditems) = None \<and>
      getMaxSizeDecoder (getTupleDecoder ditems) = None)"
proof -
  have e: "None \<in> set (map getFixedSize items)" if "None \<in> set (map getMaxSize items)"
  proof -
    from that obtain x where "x \<in> set items" "getMaxSize x = None" by (auto simp: image_iff)
    then show ?thesis using unbounded_not_fixed [of x] by (force simp: image_iff)
  qed
  have d: "None \<in> set (map getFixedSizeDecoder ditems)"
    if "None \<in> set (map getMaxSizeDecoder ditems)"
  proof -
    from that obtain x where "x \<in> set ditems" "getMaxSizeDecoder x = None"
      by (auto simp: image_iff)
    then show ?thesis using unbounded_not_fixed_decoder [of x] by (force simp: image_iff)
  qed
  show ?thesis
    using e d
    by (simp only: getFixedSize_tuple getMaxSize_tuple getFixedSizeDecoder_tuple
        getMaxSizeDecoder_tuple) (metis sumCodecSizes_Some sumCodecSizes_None)
qed

theorem C5_tuple_sizes_witness:
  "getFixedSize (getTupleEncoder
      [constantEncoder [1, 2, 3] :: byte list js encoder, constantEncoder [4, 5, 6]]) = Some 6 \<and>
   getMaxSize (getTupleEncoder
      [constantEncoder [1, 2, 3] :: byte list js encoder, constantEncoder [4, 5, 6]]) = Some 6 \<and>
   getFixedSize (getTupleEncoder [constantEncoder [1, 2, 3], bytesEncoder]) = None \<and>
   getMaxSize (getTupleEncoder [constantEncoder [1, 2, 3], bytesEncoder]) = None \<and>
   getFixedSizeDecoder (getTupleDecoder
      [constantDecoder [1, 2, 3] :: byte list js decoder, constantDecoder [4, 5, 6]]) = Some 6 \<and>
   getMaxSizeDecoder (getTupleDecoder
      [constantDecoder [1, 2, 3] :: byte list js decoder, constantDecoder [4, 5, 6]]) = Some 6 \<and>
   getFixedSizeDecoder (getTupleDecoder [constantDecoder [1, 2, 3], bytesDecoder]) = None \<and>
   getMaxSizeDecoder (getTupleDecoder [constantDecoder [1, 2, 3], bytesDecoder]) = None"
proof -
  let ?fixed = "[constantEncoder [1, 2, 3] :: byte list js encoder, constantEncoder [4, 5, 6]]"
  let ?open = "[constantEncoder [1, 2, 3], bytesEncoder]"
  let ?dfixed = "[constantDecoder [1, 2, 3] :: byte list js decoder, constantDecoder [4, 5, 6]]"
  let ?dopen = "[constantDecoder [1, 2, 3], bytesDecoder]"
  have f: "map getFixedSize ?fixed = map Some [3, 3]" "map getMaxSize ?fixed = map Some [3, 3]"
    "map getFixedSizeDecoder ?dfixed = map Some [3, 3]"
    "map getMaxSizeDecoder ?dfixed = map Some [3, 3]"
    by (simp_all add: getFixedSize_def getMaxSize_def getFixedSizeDecoder_def
        getMaxSizeDecoder_def constantEncoder_def constantDecoder_def)
  have n: "None \<in> set (map getFixedSize ?open)" "None \<in> set (map getMaxSize ?open)"
    "None \<in> set (map getFixedSizeDecoder ?dopen)" "None \<in> set (map getMaxSizeDecoder ?dopen)"
    by (simp_all add: getFixedSize_def getMaxSize_def getFixedSizeDecoder_def
        getMaxSizeDecoder_def bytesEncoder_def bytesDecoder_def)
  from C5_tuple_sizes [of ?fixed "[3, 3]" "[3, 3]" ?dfixed "[3, 3]" "[3, 3]"] f
    C5_tuple_sizes [of ?open "[]" "[]" ?dopen "[]" "[]"] n
  show ?thesis by simp
qed

subsection \<open>Reading a tuple\<close>

lemma readItems_length:
  "readItems items bytes offset vals = Inr (vs, offset') \<Longrightarrow>
   length vs = length vals + length items"
proof (induction items arbitrary: offset vals)
  case Nil
  then show ?case by simp
next
  case (Cons item items)
  then show ?case by (auto split: sum.splits prod.splits)
qed

lemma readItems_error:
  "readItems items bytes offset vals = Inl err \<Longrightarrow>
   \<exists>item\<in>set items. \<exists>off. read item bytes off = Inl err"
proof (induction items arbitrary: offset vals)
  case Nil
  then show ?case by simp
next
  case (Cons item items)
  then show ?case by (fastforce split: sum.splits prod.splits)
qed

lemma readItems_succeeds:
  "\<forall>item\<in>set items. \<forall>off. \<exists>v off'. read item bytes off = Inr (v, off') \<Longrightarrow>
   \<exists>vs offset'. readItems items bytes offset vals = Inr (vs, offset')"
proof (induction items arbitrary: offset vals)
  case Nil
  then show ?case by simp
next
  case (Cons item items)
  then obtain v off' where "read item bytes offset = Inr (v, off')" by fastforce
  moreover from Cons have "\<exists>vs offset'. readItems items bytes off' (vals @ [v]) = Inr (vs, offset')"
    by simp
  ultimately show ?case by simp
qed

text \<open>
  Claim C9. The tuple decoder checks no element count. Whatever the bytes and the starting
  offset, a successful read returns exactly one value per item decoder; when every item
  decoder's read succeeds on the bytes, the tuple read succeeds; and a failure of the tuple
  read is the failure of one of its item decoders, so the tuple decoder never raises the
  item-count mismatch itself.
\<close>

theorem C9_tuple_decoder_count:
  "(\<forall>vs offset'. read (getTupleDecoder items) bytes offset = Inr (vs, offset') \<longrightarrow>
      length vs = length items) \<and>
   ((\<forall>item\<in>set items. \<forall>off. \<exists>v off'. read item bytes off = Inr (v, off')) \<longrightarrow>
      (\<exists>vs offset'. read (getTupleDecoder items) bytes offset = Inr (vs, offset') \<and>
         length vs = length items)) \<and>
   (\<forall>err. read (getTupleDecoder items) bytes offset = Inl err \<longrightarrow>
      (\<exists>item\<in>set items. \<exists>off. read item bytes off = Inl err))"
proof -
  have r: "read (getTupleDecoder items) bytes offset = readItems items bytes offset []"
    by (simp add: getTupleDecoder_def Let_def)
  have len: "length vs = length items"
    if "readItems items bytes offset [] = Inr (vs, offset')" for vs offset'
    using readItems_length [OF that] by simp
  show ?thesis
    unfolding r using len readItems_succeeds [of items bytes offset "[]"] readItems_error [of items bytes offset "[]"]
    by blast
qed

theorem C9_tuple_decoder_count_witness:
  "read (getTupleDecoder [constantDecoder [1, 2, 3], bytesDecoder]) [1, 2, 3, 7, 8] 0 =
     Inr ([Undefined, Value [7, 8]], 5) \<and>
   length [Undefined, Value [7, 8 :: byte]] = length [constantDecoder [1, 2, 3], bytesDecoder] \<and>
   (\<exists>vs offset'. read (getTupleDecoder [bytesDecoder, bytesDecoder]) [7, 8] 1 =
      Inr (vs, offset') \<and> length vs = 2) \<and>
   read (getTupleDecoder [constantDecoder [1, 2, 3], bytesDecoder]) [9, 9, 9] 0 =
     Inl (LeafError ''InvalidConstant'') \<and>
   read (constantDecoder [1, 2, 3] :: byte list js decoder) [9, 9, 9] 0 =
     Inl (LeafError ''InvalidConstant'')"
proof -
  have r: "read (getTupleDecoder [constantDecoder [1, 2, 3], bytesDecoder]) [1, 2, 3, 7, 8] 0 =
     Inr ([Undefined, Value [7, 8]], 5)"
    by (simp add: sample_defs)
  with C9_tuple_decoder_count [of "[constantDecoder [1, 2, 3], bytesDecoder]" "[1, 2, 3, 7, 8]" 0]
  have l: "length [Undefined, Value [7, 8 :: byte]] =
      length [constantDecoder [1, 2, 3], bytesDecoder]"
    by blast
  have "\<forall>item\<in>set [bytesDecoder, bytesDecoder]. \<forall>off. \<exists>v off'.
      read item [7, 8] off = Inr (v, off')"
    by (simp add: bytesDecoder_def)
  with C9_tuple_decoder_count [of "[bytesDecoder, bytesDecoder]" "[7, 8]" 1]
  have s: "\<exists>vs offset'. read (getTupleDecoder [bytesDecoder, bytesDecoder]) [7, 8] 1 =
      Inr (vs, offset') \<and> length vs = 2"
    by (auto simp: numeral_2_eq_2)
  have e: "read (getTupleDecoder [constantDecoder [1, 2, 3], bytesDecoder]) [9, 9, 9] 0 =
     Inl (LeafError ''InvalidConstant'')"
    "read (constantDecoder [1, 2, 3] :: byte list js decoder) [9, 9, 9] 0 =
     Inl (LeafError ''InvalidConstant'')"
    by (simp_all add: sample_defs)
  from r l s e show ?thesis by (intro conjI)
qed

subsection \<open>The synthesized tuple of the hidden prefix\<close>

lemma writeItems_error:
  "writeItems items index v bytes offset = (b, Inl err) \<Longrightarrow>
   \<exists>item\<in>set items. \<exists>u b0 off. write_enc item u b0 off = (b, Inl err)"
proof (induction items arbitrary: index bytes offset)
  case Nil
  then show ?case by simp
next
  case (Cons item items)
  then show ?case by (fastforce split: sum.splits prod.splits)
qed

lemma write_transform:
  "write_enc (transformEncoder e unmap) v bytes offset = write_enc e (unmap v) bytes offset"
  by (simp add: transformEncoder_def)

lemma getEncodedSize_hiddenPrefix:
  "getEncodedSize v (getHiddenPrefixEncoder e prefixes) =
   getEncodedSize (map (\<lambda>p. Undefined) prefixes @ [v]) (getTupleEncoder (prefixes @ [e]))"
  by (simp add: getHiddenPrefixEncoder_def getEncodedSize_def transformEncoder_def
      split: encoderSize.splits)

lemma write_hiddenPrefix:
  "write_enc (getHiddenPrefixEncoder e prefixes) v bytes offset =
   writeItems (prefixes @ [e]) 0 (map (\<lambda>p. Undefined) prefixes @ [v]) bytes offset"
  by (simp add: getHiddenPrefixEncoder_def transformEncoder_def getTupleEncoder_def Let_def
      assertValidNumberOfItemsForCodec_def)

text \<open>
  Claim C10. The tuple value that the hidden-prefix encoder synthesizes, one
  \<open>undefined\<close> per prefix and then the value, has as many elements as the inner tuple
  has items, so the item-count assertion of the inner tuple write always passes: the write is
  the loop over the items, and every failure of the hidden-prefix encoder, in \<open>write\<close>
  and in \<open>encode\<close>, is the failure of a prefix encoder or of the main encoder: of its
  write or, in \<open>encode\<close>, of its size function.
\<close>

theorem C10_hidden_prefix_count:
  "length (map (\<lambda>p. Undefined) prefixes @ [v]) = length (prefixes @ [e]) \<and>
   write_enc (getHiddenPrefixEncoder e prefixes) v bytes offset =
     writeItems (prefixes @ [e]) 0 (map (\<lambda>p. Undefined) prefixes @ [v]) bytes offset \<and>
   (\<forall>b err. write_enc (getHiddenPrefixEncoder e prefixes) v bytes offset = (b, Inl err) \<longrightarrow>
      (\<exists>item\<in>set (prefixes @ [e]). \<exists>u b0 off. write_enc item u b0 off = (b, Inl err))) \<and>
   (\<forall>err. encode (getHiddenPrefixEncoder e prefixes) v = Inl err \<longrightarrow>
      (\<exists>item\<in>set (prefixes @ [e]).
         (\<exists>u b b0 off. write_enc item u b0 off = (b, Inl err)) \<or>
         (\<exists>u. getEncodedSize u item = Inl err)))"
proof -
  have w: "\<exists>item\<in>set (prefixes @ [e]). \<exists>u b0 off. write_enc item u b0 off = (b, Inl err)"
    if "write_enc (getHiddenPrefixEncoder e prefixes) v bs off = (b, Inl err)" for bs off b err
    using that writeItems_error unfolding write_hiddenPrefix by blast
  have "\<exists>item\<in>set (prefixes @ [e]).
         (\<exists>u b b0 off. write_enc item u b0 off = (b, Inl err)) \<or>
         (\<exists>u. getEncodedSize u item = Inl err)"
    if "encode (getHiddenPrefixEncoder e prefixes) v = Inl err" for err
  proof (cases "getEncodedSize v (getHiddenPrefixEncoder e prefixes)")
    case (Inl err')
    with that have "err' = err" by (simp add: encode_def)
    with Inl have "\<exists>item\<in>set (prefixes @ [e]). \<exists>u. getEncodedSize u item = Inl err"
      unfolding getEncodedSize_hiddenPrefix by (intro getEncodedSize_tuple_error) simp
    then show ?thesis by blast
  next
    case (Inr n)
    with that obtain b where
      "write_enc (getHiddenPrefixEncoder e prefixes) v (replicate n 0) 0 = (b, Inl err)"
      by (auto simp: encode_def split: prod.splits sum.splits)
    from w [OF this] show ?thesis by blast
  qed
  then have enc: "\<forall>err. encode (getHiddenPrefixEncoder e prefixes) v = Inl err \<longrightarrow>
      (\<exists>item\<in>set (prefixes @ [e]).
         (\<exists>u b b0 off. write_enc item u b0 off = (b, Inl err)) \<or>
         (\<exists>u. getEncodedSize u item = Inl err))"
    by blast
  have wr: "\<forall>b err. write_enc (getHiddenPrefixEncoder e prefixes) v bytes offset = (b, Inl err) \<longrightarrow>
      (\<exists>item\<in>set (prefixes @ [e]). \<exists>u b0 off. write_enc item u b0 off = (b, Inl err))"
    using w by blast
  have len: "length (map (\<lambda>p. Undefined) prefixes @ [v]) = length (prefixes @ [e])"
    by simp
  from len write_hiddenPrefix [of e prefixes v bytes offset] wr enc show ?thesis
    by (intro conjI)
qed

theorem C10_hidden_prefix_count_witness:
  "write_enc (getHiddenPrefixEncoder bytesEncoder
      [constantEncoder [1, 2, 3], constantEncoder [4, 5, 6]])
      (Value [0x48, 0x65, 0x6c, 0x6c, 0x6f]) [0, 0, 0, 0, 0, 0, 0, 0, 0, 0, 0] 0 =
     ([1, 2, 3, 4, 5, 6, 0x48, 0x65, 0x6c, 0x6c, 0x6f], Inr 11) \<and>
   write_enc (getHiddenPrefixEncoder bytesEncoder
      [constantEncoder [1, 2, 3], constantEncoder [4, 5, 6]])
      (Value [0x48, 0x65, 0x6c, 0x6c, 0x6f]) [0, 0, 0, 0] 0 =
     ([1, 2, 3, 0], Inl (LeafError ''RangeError''))"
proof -
  let ?e = "bytesEncoder"
  let ?ps = "[constantEncoder [1, 2, 3], constantEncoder [4, 5, 6]] :: byte list js encoder list"
  let ?v = "Value [0x48, 0x65, 0x6c, 0x6c, 0x6f :: byte]"
  from C10_hidden_prefix_count [of ?ps ?v ?e "[0, 0, 0, 0, 0, 0, 0, 0, 0, 0, 0]" 0]
  have "write_enc (getHiddenPrefixEncoder ?e ?ps) ?v [0, 0, 0, 0, 0, 0, 0, 0, 0, 0, 0] 0 =
      writeItems (?ps @ [?e]) 0 (map (\<lambda>p. Undefined) ?ps @ [?v]) [0, 0, 0, 0, 0, 0, 0, 0, 0, 0, 0] 0"
    by blast
  also have "\<dots> = ([1, 2, 3, 4, 5, 6, 0x48, 0x65, 0x6c, 0x6c, 0x6f], Inr 11)"
    by (simp add: constantEncoder_def bytesEncoder_def setBytes_def elementAt_def)
  finally have a: "write_enc (getHiddenPrefixEncoder ?e ?ps) ?v [0, 0, 0, 0, 0, 0, 0, 0, 0, 0, 0] 0 =
      ([1, 2, 3, 4, 5, 6, 0x48, 0x65, 0x6c, 0x6c, 0x6f], Inr 11)" .
  from C10_hidden_prefix_count [of ?ps ?v ?e "[0, 0, 0, 0]" 0]
  have "write_enc (getHiddenPrefixEncoder ?e ?ps) ?v [0, 0, 0, 0] 0 =
      writeItems (?ps @ [?e]) 0 (map (\<lambda>p. Undefined) ?ps @ [?v]) [0, 0, 0, 0] 0"
    by blast
  also have "\<dots> = ([1, 2, 3, 0], Inl (LeafError ''RangeError''))"
    by (simp add: constantEncoder_def bytesEncoder_def setBytes_def elementAt_def)
  finally show ?thesis using a by simp
qed

subsection \<open>The chain of offsets\<close>

lemma elementAt_drop: "elementAt v index = elementAt (drop index v) 0"
  by (simp add: elementAt_def)

lemma writeItems_drop:
  "writeItems items index v bytes offset = writeItems items 0 (drop index v) bytes offset"
proof (induction items arbitrary: index v bytes offset)
  case Nil
  then show ?case by simp
next
  case (Cons item items)
  have "writeItems items (Suc index) v b off = writeItems items (Suc 0) (drop index v) b off"
    for b off
    using Cons.IH [of "Suc index" v b off] Cons.IH [of "Suc 0" "drop index v" b off]
    by simp
  then show ?case
    using elementAt_drop [of v index] by (simp split: prod.splits sum.splits)
qed

lemma last_Cons_Cons: "last (a # b # xs) = last (b # xs)"
  by simp

lemma writeItems_Cons:
  "writeItems (item # items) 0 (x # xs) bytes offset =
     (case write_enc item x bytes offset of
        (bytes', Inl err) \<Rightarrow> (bytes', Inl err)
      | (bytes', Inr offset') \<Rightarrow> writeItems items 0 xs bytes' offset')"
  using writeItems_drop [of items "Suc 0" "x # xs"]
  by (simp add: elementAt_def split: prod.splits sum.splits)

lemma writeChain_Nil: "writeChain [] [] (b # bs) (off # offs) \<longleftrightarrow> bs = [] \<and> offs = []"
  by (cases bs; cases offs) simp_all

lemma writeChain_Cons:
  "writeChain (item # items) (x # xs) (b # bs) (off # offs) \<longleftrightarrow>
   (\<exists>b' bs' off' offs'. bs = b' # bs' \<and> offs = off' # offs' \<and>
      write_enc item x b off = (b', Inr off') \<and> writeChain items xs (b' # bs') (off' # offs'))"
  by (cases bs; cases offs) auto

lemma writeItems_chain:
  "length v = length items \<Longrightarrow>
   writeItems items 0 v bytes offset = (bytes', Inr offset') \<longleftrightarrow>
   (\<exists>bs offs. writeChain items v (bytes # bs) (offset # offs) \<and>
      last (bytes # bs) = bytes' \<and> last (offset # offs) = offset')"
proof (induction items arbitrary: v bytes offset)
  case Nil
  then show ?case by (auto simp: writeChain_Nil)
next
  case (Cons item items)
  then obtain x xs where v: "v = x # xs" "length xs = length items"
    by (cases v) auto
  obtain b1 r1 where w: "write_enc item x bytes offset = (b1, r1)"
    by (cases "write_enc item x bytes offset")
  show ?case
  proof (cases r1)
    case (Inl err)
    with w show ?thesis unfolding v writeItems_Cons writeChain_Cons by simp
  next
    case (Inr o1)
    have "writeItems (item # items) 0 (x # xs) bytes offset = (bytes', Inr offset') \<longleftrightarrow>
          writeItems items 0 xs b1 o1 = (bytes', Inr offset')"
      unfolding writeItems_Cons using w Inr by simp
    also have "\<dots> \<longleftrightarrow> (\<exists>bs offs. writeChain items xs (b1 # bs) (o1 # offs) \<and>
        last (b1 # bs) = bytes' \<and> last (o1 # offs) = offset')"
      by (rule Cons.IH [OF v(2)])
    also have "\<dots> \<longleftrightarrow> (\<exists>bs offs. writeChain (item # items) (x # xs) (bytes # bs) (offset # offs) \<and>
        last (bytes # bs) = bytes' \<and> last (offset # offs) = offset')"
    proof
      assume "\<exists>bs offs. writeChain items xs (b1 # bs) (o1 # offs) \<and>
        last (b1 # bs) = bytes' \<and> last (o1 # offs) = offset'"
      then obtain bs offs where "writeChain items xs (b1 # bs) (o1 # offs)"
        "last (b1 # bs) = bytes'" "last (o1 # offs) = offset'" by blast
      with w Inr have "writeChain (item # items) (x # xs) (bytes # b1 # bs) (offset # o1 # offs) \<and>
        last (bytes # b1 # bs) = bytes' \<and> last (offset # o1 # offs) = offset'"
        by (simp add: last_Cons_Cons del: last.simps)
      then show "\<exists>bs offs. writeChain (item # items) (x # xs) (bytes # bs) (offset # offs) \<and>
        last (bytes # bs) = bytes' \<and> last (offset # offs) = offset'" by blast
    next
      assume "\<exists>bs offs. writeChain (item # items) (x # xs) (bytes # bs) (offset # offs) \<and>
        last (bytes # bs) = bytes' \<and> last (offset # offs) = offset'"
      then obtain bs offs where c: "writeChain (item # items) (x # xs) (bytes # bs) (offset # offs)"
        and l: "last (bytes # bs) = bytes'" "last (offset # offs) = offset'" by blast
      from c obtain b' bs' off' offs' where e: "bs = b' # bs'" "offs = off' # offs'"
        "write_enc item x bytes offset = (b', Inr off')"
        "writeChain items xs (b' # bs') (off' # offs')"
        unfolding writeChain_Cons by blast
      with w Inr have "b' = b1" "off' = o1" by simp_all
      with e l have "writeChain items xs (b1 # bs') (o1 # offs') \<and>
        last (b1 # bs') = bytes' \<and> last (o1 # offs') = offset'"
        by (simp add: last_Cons_Cons del: last.simps)
      then show "\<exists>bs offs. writeChain items xs (b1 # bs) (o1 # offs) \<and>
        last (b1 # bs) = bytes' \<and> last (o1 # offs) = offset'" by blast
    qed
    finally show ?thesis unfolding v .
  qed
qed

lemma writeChain_strict:
  "\<forall>item\<in>set items. \<forall>u b off b' off'. write_enc item u b off = (b', Inr off') \<longrightarrow> off < off' \<Longrightarrow>
   writeChain items v bs offs \<Longrightarrow> sorted_wrt (<) offs"
proof (induction items v bs offs rule: writeChain.induct)
  case (2 item items v vs b b' bs off off' offs)
  then have "off < off'" "sorted_wrt (<) (off' # offs)" by auto
  then show ?case by (auto intro: less_trans)
qed simp_all

lemma writeChain_sorted:
  "\<forall>item\<in>set items. \<forall>u b off b' off'. write_enc item u b off = (b', Inr off') \<longrightarrow> off \<le> off' \<Longrightarrow>
   writeChain items v bs offs \<Longrightarrow> sorted offs"
proof (induction items v bs offs rule: writeChain.induct)
  case (2 item items v vs b b' bs off off' offs)
  then have "off \<le> off'" "sorted (off' # offs)" by auto
  then show ?case by (simp only: sorted2)
qed simp_all

lemma readChain_Nil: "readChain [] bytes ws (off # offs) \<longleftrightarrow> ws = [] \<and> offs = []"
  by (cases ws; cases offs) simp_all

lemma readChain_Cons:
  "readChain (item # items) bytes ws (off # offs) \<longleftrightarrow>
   (\<exists>x xs off' offs'. ws = x # xs \<and> offs = off' # offs' \<and>
      read item bytes off = Inr (x, off') \<and> readChain items bytes xs (off' # offs'))"
  by (cases ws; cases offs) auto

lemma readItems_chain:
  "readItems items bytes offset acc = Inr (vs, offset') \<longleftrightarrow>
   (\<exists>ws offs. vs = acc @ ws \<and> readChain items bytes ws (offset # offs) \<and>
      last (offset # offs) = offset')"
proof (induction items arbitrary: offset acc)
  case Nil
  then show ?case by (auto simp: readChain_Nil)
next
  case (Cons item items)
  show ?case
  proof (cases "read item bytes offset")
    case (Inl err)
    then show ?thesis unfolding readChain_Cons by simp
  next
    case (Inr r)
    obtain x o1 where r: "r = (x, o1)" by (cases r)
    have "readItems (item # items) bytes offset acc = Inr (vs, offset') \<longleftrightarrow>
          readItems items bytes o1 (acc @ [x]) = Inr (vs, offset')"
      using Inr r by simp
    also have "\<dots> \<longleftrightarrow> (\<exists>ws offs. vs = (acc @ [x]) @ ws \<and> readChain items bytes ws (o1 # offs) \<and>
        last (o1 # offs) = offset')"
      by (rule Cons.IH)
    also have "\<dots> \<longleftrightarrow> (\<exists>ws offs. vs = acc @ ws \<and> readChain (item # items) bytes ws (offset # offs) \<and>
        last (offset # offs) = offset')"
    proof
      assume "\<exists>ws offs. vs = (acc @ [x]) @ ws \<and> readChain items bytes ws (o1 # offs) \<and>
        last (o1 # offs) = offset'"
      then obtain ws offs where "vs = (acc @ [x]) @ ws" "readChain items bytes ws (o1 # offs)"
        "last (o1 # offs) = offset'" by blast
      with Inr r have "vs = acc @ (x # ws) \<and>
        readChain (item # items) bytes (x # ws) (offset # o1 # offs) \<and>
        last (offset # o1 # offs) = offset'"
        by (simp add: last_Cons_Cons del: last.simps)
      then show "\<exists>ws offs. vs = acc @ ws \<and> readChain (item # items) bytes ws (offset # offs) \<and>
        last (offset # offs) = offset'" by blast
    next
      assume "\<exists>ws offs. vs = acc @ ws \<and> readChain (item # items) bytes ws (offset # offs) \<and>
        last (offset # offs) = offset'"
      then obtain ws offs where vs: "vs = acc @ ws"
        and c: "readChain (item # items) bytes ws (offset # offs)"
        and l: "last (offset # offs) = offset'" by blast
      from c obtain y ys off' offs' where e: "ws = y # ys" "offs = off' # offs'"
        "read item bytes offset = Inr (y, off')" "readChain items bytes ys (off' # offs')"
        unfolding readChain_Cons by blast
      with Inr r have "y = x" "off' = o1" by simp_all
      with e l vs have "vs = (acc @ [x]) @ ys \<and> readChain items bytes ys (o1 # offs') \<and>
        last (o1 # offs') = offset'"
        by (simp add: last_Cons_Cons del: last.simps)
      then show "\<exists>ws offs. vs = (acc @ [x]) @ ws \<and> readChain items bytes ws (o1 # offs) \<and>
        last (o1 # offs) = offset'" by blast
    qed
    finally show ?thesis .
  qed
qed

lemma readChain_strict:
  "\<forall>item\<in>set items. \<forall>b off u off'. read item b off = Inr (u, off') \<longrightarrow> off < off' \<Longrightarrow>
   readChain items bytes vs offs \<Longrightarrow> sorted_wrt (<) offs"
proof (induction items bytes vs offs rule: readChain.induct)
  case (2 item items bytes v vs off off' offs)
  then have "off < off'" "sorted_wrt (<) (off' # offs)" by auto
  then show ?case by (auto intro: less_trans)
qed simp_all

lemma readChain_sorted:
  "\<forall>item\<in>set items. \<forall>b off u off'. read item b off = Inr (u, off') \<longrightarrow> off \<le> off' \<Longrightarrow>
   readChain items bytes vs offs \<Longrightarrow> sorted offs"
proof (induction items bytes vs offs rule: readChain.induct)
  case (2 item items bytes v vs off off' offs)
  then have "off \<le> off'" "sorted (off' # offs)" by auto
  then show ?case by (simp only: sorted2)
qed simp_all

lemma write_tuple:
  "length v = length items \<Longrightarrow>
   write_enc (getTupleEncoder items) v bytes offset = writeItems items 0 v bytes offset"
  by (simp add: getTupleEncoder_def Let_def assertValidNumberOfItemsForCodec_def)

lemma read_tuple: "read (getTupleDecoder items) bytes offset = readItems items bytes offset []"
  by (simp add: getTupleDecoder_def Let_def)

text \<open>
  Claim C6, as amended. For every list of items and every value of matching length, a
  tuple write succeeds exactly when there is a chain through the items in declaration order:
  the first item is written on the given buffer at the given offset, every further item on
  the buffer and at the offset that the item before it returned, and the result is the last
  buffer and the last offset. A tuple read succeeds exactly when there is such a chain of
  reads. The offsets of a chain are strictly increasing when every item returns an offset
  greater than the one it started at, and non-decreasing, so that the byte ranges of the items
  are contiguous and do not overlap, when every item returns an offset not smaller than the
  one it started at. An item of size zero starts where the next item starts.
\<close>

theorem C6_tuple_offsets:
  "(length v = length items \<longrightarrow>
      (write_enc (getTupleEncoder items) v bytes offset = (bytes', Inr offset') \<longleftrightarrow>
       (\<exists>bs offs. writeChain items v (bytes # bs) (offset # offs) \<and>
          last (bytes # bs) = bytes' \<and> last (offset # offs) = offset'))) \<and>
   (read (getTupleDecoder ditems) rbytes roffset = Inr (vals, roffset') \<longleftrightarrow>
      (\<exists>offs. readChain ditems rbytes vals (roffset # offs) \<and>
         last (roffset # offs) = roffset')) \<and>
   ((\<forall>item\<in>set items. \<forall>u b off b' off'.
        write_enc item u b off = (b', Inr off') \<longrightarrow> off < off') \<and>
    writeChain items v bufs woffs \<longrightarrow> sorted_wrt (<) woffs) \<and>
   ((\<forall>item\<in>set items. \<forall>u b off b' off'.
        write_enc item u b off = (b', Inr off') \<longrightarrow> off \<le> off') \<and>
    writeChain items v bufs woffs \<longrightarrow> sorted woffs) \<and>
   ((\<forall>item\<in>set ditems. \<forall>b off u off'.
        read item b off = Inr (u, off') \<longrightarrow> off < off') \<and>
    readChain ditems rbytes vals roffs \<longrightarrow> sorted_wrt (<) roffs) \<and>
   ((\<forall>item\<in>set ditems. \<forall>b off u off'.
        read item b off = Inr (u, off') \<longrightarrow> off \<le> off') \<and>
    readChain ditems rbytes vals roffs \<longrightarrow> sorted roffs)"
proof (intro conjI impI)
  assume "length v = length items"
  then show "write_enc (getTupleEncoder items) v bytes offset = (bytes', Inr offset') \<longleftrightarrow>
       (\<exists>bs offs. writeChain items v (bytes # bs) (offset # offs) \<and>
          last (bytes # bs) = bytes' \<and> last (offset # offs) = offset')"
    by (simp only: write_tuple writeItems_chain)
next
  show "read (getTupleDecoder ditems) rbytes roffset = Inr (vals, roffset') \<longleftrightarrow>
      (\<exists>offs. readChain ditems rbytes vals (roffset # offs) \<and>
         last (roffset # offs) = roffset')"
    unfolding read_tuple readItems_chain [of ditems rbytes roffset "[]" vals roffset'] by simp
next
  assume "(\<forall>item\<in>set items. \<forall>u b off b' off'.
        write_enc item u b off = (b', Inr off') \<longrightarrow> off < off') \<and>
    writeChain items v bufs woffs"
  then show "sorted_wrt (<) woffs" using writeChain_strict by blast
next
  assume "(\<forall>item\<in>set items. \<forall>u b off b' off'.
        write_enc item u b off = (b', Inr off') \<longrightarrow> off \<le> off') \<and>
    writeChain items v bufs woffs"
  then show "sorted woffs" using writeChain_sorted by blast
next
  assume "(\<forall>item\<in>set ditems. \<forall>b off u off'.
        read item b off = Inr (u, off') \<longrightarrow> off < off') \<and>
    readChain ditems rbytes vals roffs"
  then show "sorted_wrt (<) roffs" using readChain_strict by blast
next
  assume "(\<forall>item\<in>set ditems. \<forall>b off u off'.
        read item b off = Inr (u, off') \<longrightarrow> off \<le> off') \<and>
    readChain ditems rbytes vals roffs"
  then show "sorted roffs" using readChain_sorted by blast
qed

text \<open>
  The offsets need not be strictly increasing: the empty tuple, used as an item, writes
  nothing and returns the offset it was given, so the item after it starts at the same
  offset.
\<close>

theorem C6_tuple_offsets_counterexample:
  "write_enc (getTupleEncoder [emptyTupleItem, constantEncoder [1]])
     [Undefined :: unit js, Undefined] [0] 0 = ([1], Inr 1) \<and>
   writeChain [emptyTupleItem, constantEncoder [1]] [Undefined :: unit js, Undefined]
     [[0], [0], [1]] [0, 0, 1] \<and>
   \<not> sorted_wrt (<) [0 :: nat, 0, 1]"
  by (simp add: sample_defs)

lemma constant_advances:
  "constant \<noteq> [] \<Longrightarrow> write_enc (constantEncoder constant) u b off = (b', Inr off') \<Longrightarrow>
   off < off'"
  by (auto simp: constantEncoder_def split: option.splits)

lemma constant_decoder_advances:
  "constant \<noteq> [] \<Longrightarrow> read (constantDecoder constant) b off = Inr (u, off') \<Longrightarrow> off < off'"
  by (auto simp: constantDecoder_def split: if_splits)

theorem C6_tuple_offsets_witness:
  "write_enc (getTupleEncoder [constantEncoder [1, 2, 3], constantEncoder [4, 5]])
     [Undefined :: unit js, Undefined] [0, 0, 0, 0, 0] 0 = ([1, 2, 3, 4, 5], Inr 5) \<and>
   sorted_wrt (<) [0 :: nat, 3, 5] \<and> sorted [0 :: nat, 3, 5] \<and>
   read (getTupleDecoder [constantDecoder [1, 2, 3], constantDecoder [4, 5]])
     [1, 2, 3, 4, 5] 0 = Inr ([Undefined :: unit js, Undefined], 5)"
proof -
  let ?items = "[constantEncoder [1, 2, 3], constantEncoder [4, 5]] :: unit js encoder list"
  let ?ditems = "[constantDecoder [1, 2, 3], constantDecoder [4, 5]] :: unit js decoder list"
  let ?v = "[Undefined :: unit js, Undefined]"
  let ?bufs = "[[0, 0, 0, 0, 0], [1, 2, 3, 0, 0], [1, 2, 3, 4, 5 :: byte]]"
  note inst = C6_tuple_offsets [of ?v ?items "[0, 0, 0, 0, 0]" 0 "[1, 2, 3, 4, 5]" 5 ?ditems
      "[1, 2, 3, 4, 5]" 0 ?v 5 ?bufs "[0, 3, 5]" "[0, 3, 5]"]
  have wc: "writeChain ?items ?v ?bufs [0, 3, 5]"
    by (simp add: constantEncoder_def setBytes_def)
  have rc: "readChain ?ditems [1, 2, 3, 4, 5] ?v [0, 3, 5]"
    by (simp add: constantDecoder_def)
  have adv: "\<forall>item\<in>set ?items. \<forall>u b off b' off'.
        write_enc item u b off = (b', Inr off') \<longrightarrow> off < off'"
    using constant_advances [of "[1, 2, 3]"] constant_advances [of "[4, 5]"] by auto
  then have mono: "\<forall>item\<in>set ?items. \<forall>u b off b' off'.
        write_enc item u b off = (b', Inr off') \<longrightarrow> off \<le> off'"
    by (meson less_imp_le)
  have radv: "\<forall>item\<in>set ?ditems. \<forall>b off u off'.
        read item b off = Inr (u, off') \<longrightarrow> off < off'"
    using constant_decoder_advances [of "[1, 2, 3]"] constant_decoder_advances [of "[4, 5]"]
    by auto
  have w: "write_enc (getTupleEncoder ?items) ?v [0, 0, 0, 0, 0] 0 = ([1, 2, 3, 4, 5], Inr 5)"
  proof -
    have "\<exists>bs offs. writeChain ?items ?v ([0, 0, 0, 0, 0] # bs) (0 # offs) \<and>
          last ([0, 0, 0, 0, 0] # bs) = [1, 2, 3, 4, 5] \<and> last (0 # offs) = 5"
      using wc by (intro exI [of _ "[[1, 2, 3, 0, 0], [1, 2, 3, 4, 5]]"] exI [of _ "[3, 5]"]) simp
    with inst show ?thesis by simp
  qed
  have r: "read (getTupleDecoder ?ditems) [1, 2, 3, 4, 5] 0 = Inr (?v, 5)"
  proof -
    have "\<exists>offs. readChain ?ditems [1, 2, 3, 4, 5] ?v (0 # offs) \<and> last (0 # offs) = 5"
      using rc by (intro exI [of _ "[3, 5]"]) simp
    with inst show ?thesis by simp
  qed
  have s: "sorted_wrt (<) [0 :: nat, 3, 5]" using inst adv wc by blast
  have s': "sorted [0 :: nat, 3, 5]" using inst mono wc by blast
  from w s s' r show ?thesis by (intro conjI)
qed

subsection \<open>The bytes of the hidden prefix\<close>

lemma writesAs_encode: "writesAs e v bs \<Longrightarrow> encode e v = Inr bs"
  by (simp add: writesAs_def encode_def)

lemma encodedSizes_drop:
  "encodedSizes items index v = encodedSizes items 0 (drop index v)"
proof (induction items arbitrary: index v)
  case Nil
  then show ?case by simp
next
  case (Cons item items)
  have "encodedSizes items (Suc index) v = encodedSizes items (Suc 0) (drop index v)"
    using Cons.IH [of "Suc index" v] Cons.IH [of "Suc 0" "drop index v"] by simp
  then show ?case using elementAt_drop [of v index] by (simp split: sum.splits)
qed

lemma encodedSizes_Cons:
  "encodedSizes (item # items) 0 (x # xs) =
     (case getEncodedSize x item of
        Inl err \<Rightarrow> Inl err
      | Inr n \<Rightarrow>
          (case encodedSizes items 0 xs of
             Inl err \<Rightarrow> Inl err
           | Inr ns \<Rightarrow> Inr (n # ns)))"
  using encodedSizes_drop [of items "Suc 0" "x # xs"]
  by (simp add: elementAt_def split: sum.splits)

lemma foldl_add_sum_list: "foldl (\<lambda>all one. all + one) a xs = a + sum_list (xs :: nat list)"
  by (induction xs arbitrary: a) simp_all

lemma encodedSizes_writesAs:
  "list_all2 (\<lambda>(item, x) p. writesAs item x p) (zip items v) ps \<Longrightarrow> length v = length items \<Longrightarrow>
   encodedSizes items 0 v = Inr (map length ps)"
proof (induction items arbitrary: v ps)
  case Nil
  then show ?case by simp
next
  case (Cons item items)
  from Cons.prems(2) obtain x xs where v: "v = x # xs" "length xs = length items"
    by (cases v) auto
  from Cons.prems(1) v obtain p ps' where ps: "ps = p # ps'" "writesAs item x p"
    "list_all2 (\<lambda>(item, x) p. writesAs item x p) (zip items xs) ps'"
    by (auto simp: list_all2_Cons1)
  from Cons.IH [OF ps(3) v(2)] ps(2) show ?case
    unfolding v ps encodedSizes_Cons by (simp add: writesAs_def)
qed

lemma fixed_sizes_sum:
  "foldl addCodecSizes (Some a) (map getFixedSize items) = Some n \<Longrightarrow>
   encodedSizes items 0 v = Inr ns \<Longrightarrow> a + sum_list ns = n"
proof (induction items arbitrary: a v ns)
  case Nil
  then show ?case by simp
next
  case (Cons item items)
  show ?case
  proof (cases "getFixedSize item")
    case None
    with Cons.prems show ?thesis by (simp add: sum_sizes_None)
  next
    case (Some k)
    then have k: "getEncodedSize u item = Inr k" for u
      by (simp add: getFixedSize_def getEncodedSize_def split: encoderSize.splits)
    from Cons.prems(1) Some
    have f: "foldl addCodecSizes (Some (a + k)) (map getFixedSize items) = Some n"
      by simp
    from Cons.prems(2) obtain ns' where ns: "ns = k # ns'"
      "encodedSizes items 0 (drop (Suc 0) v) = Inr ns'"
      using encodedSizes_drop [of items "Suc 0" v]
      by (auto simp: k split: sum.splits)
    from Cons.IH [OF f ns(2)] ns(1) show ?thesis by simp
  qed
qed

lemma getEncodedSize_tuple:
  "encodedSizes items 0 v = Inr ns \<Longrightarrow>
   getEncodedSize v (getTupleEncoder items) = Inr (sum_list ns)"
proof (cases "sumCodecSizes (map getFixedSize items)")
  case None
  assume "encodedSizes items 0 v = Inr ns"
  with None show ?thesis
    by (simp add: getEncodedSize_def getTupleEncoder_def Let_def foldl_add_sum_list)
next
  case (Some n)
  assume "encodedSizes items 0 v = Inr ns"
  with Some have "0 + sum_list ns = n"
    unfolding sumCodecSizes_def by (rule fixed_sizes_sum)
  with Some show ?thesis
    by (simp add: getEncodedSize_def getTupleEncoder_def Let_def)
qed

lemma getEncodedSize_transform:
  "getEncodedSize v (transformEncoder e unmap) = getEncodedSize (unmap v) e"
  by (simp add: getEncodedSize_def transformEncoder_def split: encoderSize.splits)

lemma writeItems_writesAs:
  "list_all2 (\<lambda>(item, x) p. writesAs item x p) (zip items v) ps \<Longrightarrow> length v = length items \<Longrightarrow>
   offset + length (concat ps) \<le> length bytes \<Longrightarrow>
   writeItems items 0 v bytes offset =
     (take offset bytes @ concat ps @ drop (offset + length (concat ps)) bytes,
      Inr (offset + length (concat ps)))"
proof (induction items arbitrary: v ps bytes offset)
  case Nil
  then show ?case by simp
next
  case (Cons item items)
  from Cons.prems(2) obtain x xs where v: "v = x # xs" "length xs = length items"
    by (cases v) auto
  from Cons.prems(1) v obtain p ps' where ps: "ps = p # ps'" "writesAs item x p"
    "list_all2 (\<lambda>(item, x) p. writesAs item x p) (zip items xs) ps'"
    by (auto simp: list_all2_Cons1)
  let ?b1 = "take offset bytes @ p @ drop (offset + length p) bytes"
  let ?o1 = "offset + length p"
  have room: "offset + length p + length (concat ps') \<le> length bytes"
    using Cons.prems(3) ps(1) by simp
  then have w: "write_enc item x bytes offset = (?b1, Inr ?o1)"
    using ps(2) by (simp add: writesAs_def)
  have len: "length ?b1 = length bytes" using room by simp
  have room1: "?o1 + length (concat ps') \<le> length ?b1" using room len by simp
  have tk: "take ?o1 ?b1 = take offset bytes @ p" using room by simp
  have dr: "drop (?o1 + length (concat ps')) ?b1 =
        drop (offset + length p + length (concat ps')) bytes"
    using room by (simp add: add.commute)
  have "writeItems (item # items) 0 (x # xs) bytes offset = writeItems items 0 xs ?b1 ?o1"
    unfolding writeItems_Cons using w by simp
  also have "\<dots> = (take ?o1 ?b1 @ concat ps' @ drop (?o1 + length (concat ps')) ?b1,
      Inr (?o1 + length (concat ps')))"
    by (rule Cons.IH [OF ps(3) v(2) room1])
  finally show ?case unfolding v ps tk dr by (simp add: add.assoc)
qed

lemma encode_tuple_writesAs:
  assumes "list_all2 (\<lambda>(item, x) p. writesAs item x p) (zip items v) ps"
    and "length v = length items"
  shows "encode (getTupleEncoder items) v = Inr (concat ps)"
proof -
  have size: "getEncodedSize v (getTupleEncoder items) = Inr (length (concat ps))"
    using getEncodedSize_tuple [OF encodedSizes_writesAs [OF assms]]
    by (simp add: length_concat)
  have "writeItems items 0 v (replicate (length (concat ps)) 0) 0 =
     (take 0 (replicate (length (concat ps)) 0) @ concat ps @
        drop (0 + length (concat ps)) (replicate (length (concat ps)) 0),
      Inr (0 + length (concat ps)))"
    by (rule writeItems_writesAs [OF assms]) simp
  then show ?thesis
    using assms(2) by (simp add: encode_def size write_tuple)
qed

lemma hidden_prefix_zip:
  "list_all2 (\<lambda>p bs. writesAs p Undefined bs) prefixes ps \<Longrightarrow> writesAs e v bs \<Longrightarrow>
   list_all2 (\<lambda>(item, x) p. writesAs item x p)
     (zip (prefixes @ [e]) (map (\<lambda>p. Undefined) prefixes @ [v])) (ps @ [bs])"
proof (induction prefixes ps rule: list_all2_induct)
  case Nil
  then show ?case by simp
next
  case (Cons p prefixes q ps)
  then show ?case by simp
qed

lemma encode_hiddenPrefix:
  assumes "list_all2 (\<lambda>p bs. writesAs p Undefined bs) prefixes ps" and "writesAs e v bs"
  shows "encode (getHiddenPrefixEncoder e prefixes) v = Inr (concat ps @ bs)"
proof -
  let ?tuple = "map (\<lambda>p. Undefined) prefixes @ [v]"
  have "encode (getHiddenPrefixEncoder e prefixes) v = encode (getTupleEncoder (prefixes @ [e])) ?tuple"
    by (simp add: encode_def getHiddenPrefixEncoder_def getEncodedSize_transform
        write_transform split: sum.splits)
  also have "\<dots> = Inr (concat (ps @ [bs]))"
    by (rule encode_tuple_writesAs [OF hidden_prefix_zip [OF assms]]) simp
  finally show ?thesis by simp
qed

text \<open>
  Claim C3. For every encoder, every list of void prefix encoders and every value, where
  each encoder keeps the contract of an encoder (it serializes its bytes at the offset it is
  given), the bytes that the hidden-prefix encoder produces are the concatenation, in the
  order supplied, of what each prefix encoder produces for \<open>undefined\<close>, followed by what
  the main encoder produces for the value.
\<close>

theorem C3_hidden_prefix_bytes:
  assumes "list_all2 (\<lambda>p bs. writesAs p Undefined bs) prefixes ps" and "writesAs e v bs"
  shows "encode (getHiddenPrefixEncoder e prefixes) v = Inr (concat ps @ bs) \<and>
         list_all2 (\<lambda>p bs. encode p Undefined = Inr bs) prefixes ps \<and>
         encode e v = Inr bs"
proof -
  have "list_all2 (\<lambda>p bs. encode p Undefined = Inr bs) prefixes ps"
    using assms(1) by (rule list_all2_mono) (rule writesAs_encode)
  with encode_hiddenPrefix [OF assms] writesAs_encode [OF assms(2)] show ?thesis by simp
qed


lemma writesAs_constant: "writesAs (constantEncoder constant) u constant"
  by (simp add: writesAs_def constantEncoder_def getEncodedSize_def setBytes_def)

lemma writesAs_bytes: "writesAs bytesEncoder (Value bs) bs"
  by (simp add: writesAs_def bytesEncoder_def getEncodedSize_def setBytes_def)

theorem C3_hidden_prefix_bytes_witness:
  "encode (getHiddenPrefixEncoder bytesEncoder
      [constantEncoder [1, 2, 3], constantEncoder [4, 5, 6]])
      (Value [0x48, 0x65, 0x6c, 0x6c, 0x6f]) =
     Inr [1, 2, 3, 4, 5, 6, 0x48, 0x65, 0x6c, 0x6c, 0x6f] \<and>
   encode (constantEncoder [1, 2, 3]) (Undefined :: byte list js) = Inr [1, 2, 3] \<and>
   encode (constantEncoder [4, 5, 6]) (Undefined :: byte list js) = Inr [4, 5, 6] \<and>
   encode bytesEncoder (Value [0x48, 0x65, 0x6c, 0x6c, 0x6f]) =
     Inr [0x48, 0x65, 0x6c, 0x6c, 0x6f]"
proof -
  have ps: "list_all2 (\<lambda>p bs. writesAs p (Undefined :: byte list js) bs)
      [constantEncoder [1, 2, 3], constantEncoder [4, 5, 6]] [[1, 2, 3], [4, 5, 6]]"
    by (simp add: writesAs_constant)
  from C3_hidden_prefix_bytes [OF ps writesAs_bytes [of "[0x48, 0x65, 0x6c, 0x6c, 0x6f]"]]
  show ?thesis by simp
qed

lemma readItems_prefixes:
  "list_all2 consumes pdecs ps \<Longrightarrow> drop offset bytes = concat ps @ rest \<Longrightarrow>
   \<exists>us. length us = length pdecs \<and>
     readItems (pdecs @ ds) bytes offset acc =
       readItems ds bytes (offset + length (concat ps)) (acc @ us)"
proof (induction pdecs ps arbitrary: offset acc rule: list_all2_induct)
  case Nil
  then show ?case by simp
next
  case (Cons d pdecs p ps)
  from Cons.prems have "take (length p) (drop offset bytes) = p" by simp
  with Cons.hyps(1) obtain u where u: "read d bytes offset = Inr (u, offset + length p)"
    unfolding consumes_def by blast
  have "drop (offset + length p) bytes = drop (length p) (drop offset bytes)"
    by (simp add: add.commute)
  with Cons.prems have "drop (offset + length p) bytes = concat ps @ rest" by simp
  from Cons.IH [OF this, of "acc @ [u]"] obtain us where us: "length us = length pdecs"
    "readItems (pdecs @ ds) bytes (offset + length p) (acc @ [u]) =
       readItems ds bytes (offset + length p + length (concat ps)) ((acc @ [u]) @ us)"
    by blast
  have "length (u # us) = length (d # pdecs) \<and>
     readItems ((d # pdecs) @ ds) bytes offset acc =
       readItems ds bytes (offset + length (concat (p # ps))) (acc @ (u # us))"
    using u us by (simp add: add.assoc)
  then show ?case by blast
qed

lemma decode_hiddenPrefix:
  assumes pre: "list_all2 consumes pdecs ps"
    and off: "readsFromOffset d" and rt: "decode d bs = Inr v"
  shows "decode (getHiddenPrefixDecoder d pdecs) (concat ps @ bs) = Inr v"
proof -
  let ?bytes = "concat ps @ bs"
  let ?n = "length (concat ps)"
  from readItems_prefixes [OF pre, of 0 ?bytes bs "[d]" "[]"]
  obtain us where us: "length us = length pdecs"
    "readItems (pdecs @ [d]) ?bytes 0 [] = readItems [d] ?bytes ?n us"
    by auto
  from rt obtain n where r0: "read d bs 0 = Inr (v, n)"
    by (auto simp: decode_def split: sum.splits prod.splits)
  have "read d ?bytes ?n = (case read d (drop ?n ?bytes) 0 of
           Inl err \<Rightarrow> Inl err | Inr (v, n) \<Rightarrow> Inr (v, ?n + n))"
    using off unfolding readsFromOffset_def by blast
  with r0 have "read d ?bytes ?n = Inr (v, ?n + n)" by simp
  with us have "readItems (pdecs @ [d]) ?bytes 0 [] = Inr (us @ [v], ?n + n)" by simp
  then show ?thesis
    by (simp add: decode_def getHiddenPrefixDecoder_def transformDecoder_def read_tuple
        elementAt_def)
qed

text \<open>
  Claim C2. For every codec, every list of void prefix codecs and every value: when the
  codec decodes what it encodes for the value, and every prefix decoder consumes exactly the
  bytes that its encoder produces, the hidden-prefix codec encodes the value and decodes the
  result back to the value. The encoders keep the contract of an encoder and the main decoder
  reads from the offset it is given.
\<close>

theorem C2_hidden_prefix_roundtrip:
  assumes "list_all2 (\<lambda>p bs. writesAs (encoderOf p) Undefined bs \<and> consumes (decoderOf p) bs)
             prefixedCodecs ps"
    and "writesAs (encoderOf c) v bs"
    and "readsFromOffset (decoderOf c)"
    and "decode (decoderOf c) bs = Inr v"
  shows "\<exists>bytes. encode (encoderOf (getHiddenPrefixCodec c prefixedCodecs)) v = Inr bytes \<and>
           decode (decoderOf (getHiddenPrefixCodec c prefixedCodecs)) bytes = Inr v"
proof -
  have e: "list_all2 (\<lambda>p bs. writesAs p Undefined bs) (map encoderOf prefixedCodecs) ps"
    using assms(1) by (simp add: list_all2_map1 list_all2_mono)
  have d: "list_all2 consumes (map decoderOf prefixedCodecs) ps"
    using assms(1) by (simp add: list_all2_map1 list_all2_mono)
  have "encode (encoderOf (getHiddenPrefixCodec c prefixedCodecs)) v = Inr (concat ps @ bs)"
    using encode_hiddenPrefix [OF e assms(2)]
    by (simp add: getHiddenPrefixCodec_def combineCodec_def)
  moreover have "decode (decoderOf (getHiddenPrefixCodec c prefixedCodecs)) (concat ps @ bs) = Inr v"
    using decode_hiddenPrefix [OF d assms(3) assms(4)]
    by (simp add: getHiddenPrefixCodec_def combineCodec_def)
  ultimately show ?thesis by blast
qed

lemma consumes_constant: "consumes (constantDecoder constant) constant"
  by (simp add: consumes_def constantDecoder_def)

lemma readsFromOffset_bytes: "readsFromOffset bytesDecoder"
  by (simp add: readsFromOffset_def bytesDecoder_def)

lemma decode_bytes: "decode bytesDecoder bs = Inr (Value bs)"
  by (simp add: decode_def bytesDecoder_def)

theorem C2_hidden_prefix_roundtrip_witness:
  "\<exists>bytes.
     encode (encoderOf (getHiddenPrefixCodec (combineCodec bytesEncoder bytesDecoder)
        [combineCodec (constantEncoder [1, 2, 3]) (constantDecoder [1, 2, 3]),
         combineCodec (constantEncoder [4, 5, 6]) (constantDecoder [4, 5, 6])]))
        (Value [0x48, 0x65, 0x6c, 0x6c, 0x6f]) = Inr bytes \<and>
     decode (decoderOf (getHiddenPrefixCodec (combineCodec bytesEncoder bytesDecoder)
        [combineCodec (constantEncoder [1, 2, 3]) (constantDecoder [1, 2, 3]),
         combineCodec (constantEncoder [4, 5, 6]) (constantDecoder [4, 5, 6])]))
        bytes = Inr (Value [0x48, 0x65, 0x6c, 0x6c, 0x6f])"
proof -
  let ?c = "combineCodec bytesEncoder bytesDecoder"
  let ?ps = "[combineCodec (constantEncoder [1, 2, 3]) (constantDecoder [1, 2, 3]),
         combineCodec (constantEncoder [4, 5, 6]) (constantDecoder [4, 5, 6])]
         :: (byte list js, byte list js) codec list"
  have p: "list_all2 (\<lambda>p bs. writesAs (encoderOf p) Undefined bs \<and> consumes (decoderOf p) bs)
      ?ps [[1, 2, 3], [4, 5, 6]]"
    by (simp add: combineCodec_def writesAs_constant consumes_constant)
  have w: "writesAs (encoderOf ?c) (Value [0x48, 0x65, 0x6c, 0x6c, 0x6f])
      [0x48, 0x65, 0x6c, 0x6c, 0x6f]"
    by (simp add: combineCodec_def writesAs_bytes)
  have r: "readsFromOffset (decoderOf ?c)"
    by (simp add: combineCodec_def readsFromOffset_bytes)
  have d: "decode (decoderOf ?c) [0x48, 0x65, 0x6c, 0x6c, 0x6f] =
      Inr (Value [0x48, 0x65, 0x6c, 0x6c, 0x6f])"
    by (simp add: combineCodec_def decode_bytes)
  from C2_hidden_prefix_roundtrip [OF p w r d] show ?thesis .
qed

end
